theory Spec2Isabelle
  imports Main "HOL-Library.Char_ord" "HOL-Library.List_Lexorder" "HOL-Library.Multiset"
    "HOL-Library.Word" "HOL-Library.Signed_Division"
begin

section \<open>Data model of ProjectTwo.cpp\<close>

text \<open>
  The program keeps a catalogue of courses in a hash table with chained overflow nodes,
  fills it from a comma separated file, and lists it through a quicksort.
  A \<^verbatim>\<open>std::string\<close> is a \<open>string\<close> (list of bytes), a \<^verbatim>\<open>std::vector\<close> a list.
\<close>

record Course =
  number :: string
  title :: string
  prerequisites :: "string list"

text \<open>\<^verbatim>\<open>Course {}\<close>: every member default-constructed.\<close>

definition Course_default :: Course where
  "Course_default = \<lparr>number = [], title = [], prerequisites = []\<rparr>"

text \<open>
  What can go wrong in the source: \<^verbatim>\<open>vector::at\<close> throws \<^verbatim>\<open>out_of_range\<close>;
  \<^verbatim>\<open>% m_size\<close> with \<open>m_size = 0\<close>, an \<^verbatim>\<open>int\<close> product or a
  \<^verbatim>\<open>double\<close> to \<^verbatim>\<open>int\<close> cast that leaves the range of \<^verbatim>\<open>int\<close>, and
  \<^verbatim>\<open>cur_node->next\<close> on a null \<^verbatim>\<open>cur_node\<close> are undefined behaviour.
\<close>

datatype error = OutOfRange | DivByZero | IntOverflow | NullDeref

section \<open>Reading rows and fields\<close>

definition ROW_DEL :: char where
  "ROW_DEL = CHR 0x0A"

definition COL_DEL :: char where
  "COL_DEL = CHR '',''"

text \<open>
  \<^verbatim>\<open>while (getline(csv, row, ROW_DEL))\<close>: the rows the loop sees, in order. A call of
  \<^verbatim>\<open>getline\<close> succeeds when it extracts at least one character (the delimiter counts,
  and is discarded), so text after the last newline is a row only when it is not empty.
\<close>

function getline_rows :: "string \<Rightarrow> string list" where
  "getline_rows s =
     (if s = [] then []
      else let row = takeWhile (\<lambda>c. c \<noteq> ROW_DEL) s in
        (case drop (length row) s of
           [] \<Rightarrow> [row]
         | _ # rest \<Rightarrow> row # getline_rows rest))"
  by pat_completeness auto
termination
proof (relation "measure length")
  show "wf (measure length)" by simp
next
  fix s row :: string and x21 x22
  assume "s \<noteq> []" and "drop (length row) s = x21 # x22"
  then have "length (drop (length row) s) = Suc (length x22)" by simp
  then show "(x22, s) \<in> measure length" by simp
qed

declare getline_rows.simps [simp del]

text \<open>
  The stream of a file: \<open>None\<close> when the file could not be opened (the source prints a
  message at most and reads on; every \<^verbatim>\<open>getline\<close> then fails).
\<close>

definition file_rows :: "string option \<Rightarrow> string list" where
  "file_rows csv = (case csv of None \<Rightarrow> [] | Some s \<Rightarrow> getline_rows s)"

text \<open>
  \<^verbatim>\<open>row.find(c, pos)\<close>: the first index at or after \<open>pos\<close> holding \<open>c\<close>,
  \<open>None\<close> for \<^verbatim>\<open>npos\<close>.
\<close>

definition find_char :: "string \<Rightarrow> char \<Rightarrow> nat \<Rightarrow> nat option" where
  "find_char s c pos =
     (let n = length (takeWhile (\<lambda>x. x \<noteq> c) (drop pos s))
      in if pos + n < length s then Some (pos + n) else None)"

lemma find_char_Some:
  "find_char s c pos = Some e \<Longrightarrow> pos \<le> e \<and> e < length s"
  by (simp add: find_char_def Let_def split: if_splits)

text \<open>
  \<^verbatim>\<open>s.substr(pos, n)\<close>. It throws only for \<open>pos > length s\<close>; every call below has
  \<open>pos \<le> length s\<close> (lemmas \<open>find_char_Some\<close>, \<open>column_loop_start\<close> and
  \<open>validate_columns_start\<close>), so the throw is not a branch here.
\<close>

definition substr :: "string \<Rightarrow> nat \<Rightarrow> nat \<Rightarrow> string" where
  "substr s pos n = take n (drop pos s)"

text \<open>Subtraction of \<^verbatim>\<open>size_t\<close> values (64 bits), which wraps around.\<close>

definition size_t_sub :: "nat \<Rightarrow> nat \<Rightarrow> nat" where
  "size_t_sub a b = (a + 2 ^ 64 - b mod 2 ^ 64) mod 2 ^ 64"

text \<open>
  \<^verbatim>\<open>std::string(p)\<close> for the \<^verbatim>\<open>const char *\<close> that \<^verbatim>\<open>.data()\<close> returns: the
  bytes before the first NUL.
\<close>

definition c_str :: "string \<Rightarrow> string" where
  "c_str s = takeWhile (\<lambda>c. c \<noteq> CHR 0x00) s"

text \<open>
  The column loop of \<^verbatim>\<open>loadFromCSV\<close>. The locals \<^verbatim>\<open>number\<close>, \<^verbatim>\<open>title\<close> and
  \<^verbatim>\<open>prerequisites\<close> are the fields of the record under construction. The indices
  \<^verbatim>\<open>start\<close>, \<^verbatim>\<open>end\<close> and \<^verbatim>\<open>field_count\<close> are \<^verbatim>\<open>int\<close> in the source and never
  negative; they are \<open>nat\<close> here (a row is shorter than \<open>2 ^ 31\<close> bytes).
\<close>

function column_loop :: "string \<Rightarrow> nat \<Rightarrow> nat \<Rightarrow> Course \<Rightarrow> nat \<times> nat \<times> Course" where
  "column_loop row start field_count c =
     (case find_char row COL_DEL start of
        None \<Rightarrow> (start, field_count, c)
      | Some end_idx \<Rightarrow>
          (let field = substr row start (end_idx - start) in
           if end_idx - start = 0 then column_loop row (end_idx + 1) field_count c
           else column_loop row (end_idx + 1) (field_count + 1)
             (case field_count of
                0 \<Rightarrow> c\<lparr>number := field\<rparr>
              | Suc 0 \<Rightarrow> c\<lparr>title := field\<rparr>
              | _ \<Rightarrow> c\<lparr>prerequisites := prerequisites c @ [field]\<rparr>)))"
  by pat_completeness auto
termination
proof (relation "measure (\<lambda>(row, start, field_count, c). length row - start)")
  show "wf (measure (\<lambda>(row, start, field_count, c). length row - start))"
    by simp
qed (auto dest!: find_char_Some)

declare column_loop.simps [simp del]

text \<open>
  One pass of the row loop of \<^verbatim>\<open>loadFromCSV\<close> up to the call of \<^verbatim>\<open>insert\<close>:
  the record built from a row.
\<close>

definition parse_row :: "string \<Rightarrow> Course" where
  "parse_row row =
     (case column_loop row 0 0 Course_default of
        (start, field_count, c) \<Rightarrow>
          if start < size_t_sub (length row) 1
          then c\<lparr>prerequisites := prerequisites c @
                 [c_str (substr row start (size_t_sub (size_t_sub (length row) start) 1))]\<rparr>
          else c)"

section \<open>ValidateFile\<close>

text \<open>The column loop of \<^verbatim>\<open>ValidateFile\<close>, on the two sets it fills.\<close>

function validate_columns ::
  "string \<Rightarrow> nat \<Rightarrow> nat \<Rightarrow> string set \<Rightarrow> string set \<Rightarrow> nat \<times> nat \<times> string set \<times> string set" where
  "validate_columns row start cur_field courses prereqs =
     (case find_char row COL_DEL start of
        None \<Rightarrow> (start, cur_field, courses, prereqs)
      | Some end_idx \<Rightarrow>
          (let field = substr row start (end_idx - start) in
           if end_idx - start = 0 then validate_columns row (end_idx + 1) cur_field courses prereqs
           else (case cur_field of
                0 \<Rightarrow> validate_columns row (end_idx + 1) (cur_field + 1) (insert field courses) prereqs
              | Suc 0 \<Rightarrow> validate_columns row (end_idx + 1) (cur_field + 1) courses prereqs
              | _ \<Rightarrow> validate_columns row (end_idx + 1) (cur_field + 1) courses (insert field prereqs))))"
  by pat_completeness auto
termination
proof (relation "measure (\<lambda>(row, start, cur_field, courses, prereqs). length row - start)")
  show "wf (measure (\<lambda>(row, start, cur_field, courses, prereqs). length row - start))"
    by simp
qed (auto dest!: find_char_Some)

declare validate_columns.simps [simp del]

text \<open>
  The row loop of \<^verbatim>\<open>ValidateFile\<close> and the check after it. \<open>-1\<close> is returned as soon
  as a row counts fewer than two fields.
\<close>

fun validate_rows :: "string list \<Rightarrow> string set \<Rightarrow> string set \<Rightarrow> int \<Rightarrow> int" where
  "validate_rows [] courses prereqs row_count =
     (if prereqs \<subseteq> courses then row_count else - 1)"
| "validate_rows (row # rows) courses prereqs row_count =
     (case validate_columns row 0 0 courses prereqs of
        (start, cur_field, courses', prereqs') \<Rightarrow>
          (let prereqs'' =
             (if start < size_t_sub (length row) 1
              then insert (substr row start (size_t_sub (size_t_sub (length row) start) 1)) prereqs'
              else prereqs')
           in if cur_field < 2 then - 1
              else validate_rows rows courses' prereqs'' (row_count + 1)))"

definition ValidateFile :: "string option \<Rightarrow> int" where
  "ValidateFile csv = validate_rows (file_rows csv) {} {} 0"

section \<open>The hash table\<close>

definition INT_MAX :: int where
  "INT_MAX = 2147483647"

definition INT_MIN :: int where
  "INT_MIN = - 2147483648"

definition UINT_MAX :: nat where
  "UINT_MAX = 4294967295"

text \<open>
  A chain node. \<^verbatim>\<open>Node *next\<close> owns the rest of the chain, and no node is shared, so
  the pointer is the optional next node (\<open>None\<close> for \<^verbatim>\<open>nullptr\<close>). A slot of
  \<^verbatim>\<open>m_nodes\<close> is the head node itself; \<open>key = UINT_MAX\<close> marks an empty slot.
\<close>

datatype Node = Node (course: Course) (key: nat) (next_ptr: "Node option")

text \<open>\<^verbatim>\<open>Node {}\<close>\<close>

definition Node_default :: Node where
  "Node_default = Node Course_default UINT_MAX None"

record HashTable =
  m_nodes :: "Node list"
  m_size :: nat

text \<open>\<^verbatim>\<open>HashTable(const unsigned int &t_size)\<close>\<close>

definition HashTable_new :: "nat \<Rightarrow> HashTable" where
  "HashTable_new t_size = \<lparr>m_nodes = replicate t_size Node_default, m_size = t_size\<rparr>"

text \<open>
  \<^verbatim>\<open>key[i]\<close> promoted to \<^verbatim>\<open>int\<close>; plain \<^verbatim>\<open>char\<close> is taken as signed (as on
  x86-64), which matters for bytes above 127 only.
\<close>

definition char_to_int :: "char \<Rightarrow> int" where
  "char_to_int c = (let n = of_char c in if n < 128 then n else n - 256)"

text \<open>
  \<^verbatim>\<open>(key[i] * static_cast<int>(pow(31, i))) % m_size\<close>. The power is computed in
  \<^verbatim>\<open>double\<close> (exact while it fits an \<^verbatim>\<open>int\<close>); the cast and the \<^verbatim>\<open>int\<close>
  product are undefined outside the range of \<^verbatim>\<open>int\<close>; the remainder is taken after
  the conversion of the product to \<^verbatim>\<open>unsigned int\<close>.
\<close>

definition hash_term :: "nat \<Rightarrow> char \<Rightarrow> nat \<Rightarrow> error + nat" where
  "hash_term size_m c i =
     (if INT_MAX < 31 ^ i then Inl IntOverflow
      else let p = char_to_int c * 31 ^ i in
        if p < INT_MIN \<or> INT_MAX < p then Inl IntOverflow
        else if size_m = 0 then Inl DivByZero
        else Inr (nat (p mod 2 ^ 32) mod size_m))"

text \<open>The loop of \<^verbatim>\<open>hash\<close> on the accumulator \<^verbatim>\<open>size_t sum\<close> (64 bits, wrapping).\<close>

function hash_loop :: "nat \<Rightarrow> string \<Rightarrow> nat \<Rightarrow> 64 word \<Rightarrow> error + 64 word" where
  "hash_loop size_m key_str i sum64 =
     (if i < length key_str then
        (case hash_term size_m (key_str ! i) i of
           Inl e \<Rightarrow> Inl e
         | Inr v \<Rightarrow> hash_loop size_m key_str (i + 1) (sum64 + of_nat v))
      else Inr sum64)"
  by pat_completeness auto
termination
  by (relation "measure (\<lambda>(size_m, key_str, i, sum64). length key_str - i)") auto

declare hash_loop.simps [simp del]

text \<open>
  \<^verbatim>\<open>HashTable::hash\<close>. The source declares \<^verbatim>\<open>size_t sum;\<close> without an initialiser
  and adds to it, so the result depends on the indeterminate value \<open>sum0\<close> that the
  variable holds when the call starts. That value is a parameter of every function that
  calls \<^verbatim>\<open>hash\<close>.
\<close>

definition hash :: "64 word \<Rightarrow> nat \<Rightarrow> string \<Rightarrow> error + nat" where
  "hash sum0 size_m key_str =
     (case hash_loop size_m key_str 0 sum0 of
        Inl e \<Rightarrow> Inl e
      | Inr sum64 \<Rightarrow> if size_m = 0 then Inl DivByZero else Inr (unat sum64 mod size_m))"

text \<open>The traversal of \<^verbatim>\<open>insert\<close> to the last node, where the new node is linked.\<close>

fun append_node :: "Node \<Rightarrow> Node \<Rightarrow> Node" where
  "append_node (Node c k None) new_node = Node c k (Some new_node)"
| "append_node (Node c k (Some nd)) new_node = Node c k (Some (append_node nd new_node))"

definition HashTable_insert :: "64 word \<Rightarrow> Course \<Rightarrow> HashTable \<Rightarrow> error + HashTable" where
  "HashTable_insert sum0 c t =
     (case hash sum0 (m_size t) (number c) of
        Inl e \<Rightarrow> Inl e
      | Inr k \<Rightarrow>
          if length (m_nodes t) \<le> k then Inl OutOfRange
          else if key (m_nodes t ! k) = UINT_MAX
            then Inr (t\<lparr>m_nodes := (m_nodes t)[k := Node c k None]\<rparr>)
            else Inr (t\<lparr>m_nodes := (m_nodes t)[k := append_node (m_nodes t ! k) (Node c k None)]\<rparr>))"

text \<open>The chain loop of \<^verbatim>\<open>toVector\<close> and its loop over the slots.\<close>

fun toVector_chain :: "Node option \<Rightarrow> Course list \<Rightarrow> Course list" where
  "toVector_chain None courses = courses"
| "toVector_chain (Some (Node c k nxt)) courses = toVector_chain nxt (courses @ [c])"

fun toVector_slots :: "Node list \<Rightarrow> Course list \<Rightarrow> Course list" where
  "toVector_slots [] courses = courses"
| "toVector_slots (head # rest) courses =
     (if key head \<noteq> UINT_MAX
      then toVector_slots rest (toVector_chain (next_ptr head) (courses @ [course head]))
      else toVector_slots rest courses)"

definition HashTable_toVector :: "HashTable \<Rightarrow> Course list" where
  "HashTable_toVector t = toVector_slots (m_nodes t) []"

text \<open>
  The chain loop of \<^verbatim>\<open>remove\<close>, started with \<^verbatim>\<open>cur_node\<close> at the argument node; the
  result is that node with the chain behind it as the loop leaves it. After a match is
  unlinked the loop still executes \<^verbatim>\<open>cur_node = cur_node->next\<close>: the node that followed
  the match is stepped over, and when the match was the last node \<^verbatim>\<open>cur_node\<close> is null
  at the next evaluation of the loop condition \<^verbatim>\<open>cur_node->next != nullptr\<close>.
\<close>

fun remove_chain :: "string \<Rightarrow> Node \<Rightarrow> error + Node" where
  "remove_chain course_number (Node c k None) = Inr (Node c k None)"
| "remove_chain course_number (Node c k (Some (Node c1 k1 nxt1))) =
     (if number c1 = course_number then
        (case nxt1 of
           None \<Rightarrow> Inl NullDeref
         | Some nd \<Rightarrow>
            (case remove_chain course_number nd of
               Inl e \<Rightarrow> Inl e
             | Inr nd' \<Rightarrow> Inr (Node c k (Some nd'))))
      else
        (case remove_chain course_number (Node c1 k1 nxt1) of
           Inl e \<Rightarrow> Inl e
         | Inr nd' \<Rightarrow> Inr (Node c k (Some nd'))))"

definition HashTable_remove :: "64 word \<Rightarrow> string \<Rightarrow> HashTable \<Rightarrow> error + HashTable" where
  "HashTable_remove sum0 course_number t =
     (case hash sum0 (m_size t) course_number of
        Inl e \<Rightarrow> Inl e
      | Inr k \<Rightarrow>
          if length (m_nodes t) \<le> k then Inl OutOfRange
          else let head = m_nodes t ! k in
            if key head \<noteq> UINT_MAX then
              if number (course head) = course_number then
                (case next_ptr head of
                   Some nd \<Rightarrow> Inr (t\<lparr>m_nodes := (m_nodes t)[k := nd]\<rparr>)
                 | None \<Rightarrow> Inr (t\<lparr>m_nodes := (m_nodes t)[k := Node_default]\<rparr>))
              else
                (case remove_chain course_number head of
                   Inl e \<Rightarrow> Inl e
                 | Inr head' \<Rightarrow> Inr (t\<lparr>m_nodes := (m_nodes t)[k := head']\<rparr>))
            else Inr t)"

text \<open>The chain loop of \<^verbatim>\<open>search\<close>; \<^verbatim>\<open>Course {}\<close> when the chain ends.\<close>

fun search_chain :: "string \<Rightarrow> Node option \<Rightarrow> Course" where
  "search_chain course_number None = Course_default"
| "search_chain course_number (Some (Node c k nxt)) =
     (if number c = course_number then c else search_chain course_number nxt)"

definition HashTable_search :: "64 word \<Rightarrow> string \<Rightarrow> HashTable \<Rightarrow> error + Course" where
  "HashTable_search sum0 course_number t =
     (case hash sum0 (m_size t) course_number of
        Inl e \<Rightarrow> Inl e
      | Inr k \<Rightarrow>
          if length (m_nodes t) \<le> k then Inl OutOfRange
          else let head = m_nodes t ! k in
            if key head \<noteq> UINT_MAX then
              if number (course head) = course_number then Inr (course head)
              else Inr (search_chain course_number (next_ptr head))
            else Inr Course_default)"

text \<open>
  \<^verbatim>\<open>loadFromCSV\<close>: every row is parsed and inserted. \<open>junk i\<close> is the indeterminate
  start value of \<^verbatim>\<open>sum\<close> in the call of \<^verbatim>\<open>hash\<close> for row \<open>i\<close>.
\<close>

fun load_rows :: "(nat \<Rightarrow> 64 word) \<Rightarrow> nat \<Rightarrow> string list \<Rightarrow> HashTable \<Rightarrow> error + HashTable" where
  "load_rows junk i [] t = Inr t"
| "load_rows junk i (row # rows) t =
     (case HashTable_insert (junk i) (parse_row row) t of
        Inl e \<Rightarrow> Inl e
      | Inr t' \<Rightarrow> load_rows junk (i + 1) rows t')"

definition loadFromCSV :: "(nat \<Rightarrow> 64 word) \<Rightarrow> string option \<Rightarrow> HashTable \<Rightarrow> error + HashTable" where
  "loadFromCSV junk csv t = load_rows junk 0 (file_rows csv) t"

section \<open>Quicksort\<close>

text \<open>
  \<^verbatim>\<open>a.compare(b)\<close> of \<^verbatim>\<open>std::string\<close>: negative, zero or positive as \<open>a\<close> is
  before, equal to or after \<open>b\<close> in the lexicographic order of the bytes (compared as
  unsigned values), a proper prefix coming first. That order is \<open>(<)\<close> on \<open>string\<close>.
\<close>

definition string_compare :: "string \<Rightarrow> string \<Rightarrow> int" where
  "string_compare a b = (if a < b then - 1 else if b < a then 1 else 0)"

text \<open>
  The two inner loops of the partition. The indices are \<^verbatim>\<open>int\<close>; \<^verbatim>\<open>courses->at(i)\<close>
  throws for an index that is negative (it converts to a huge unsigned value) or not
  below the size.
\<close>

function scan_low :: "Course list \<Rightarrow> string \<Rightarrow> int \<Rightarrow> error + int" where
  "scan_low courses pivot low =
     (if low < 0 \<or> int (length courses) \<le> low then Inl OutOfRange
      else if string_compare (number (courses ! nat low)) pivot < 0
        then scan_low courses pivot (low + 1)
        else Inr low)"
  by pat_completeness auto
termination
  by (relation "measure (\<lambda>(courses, pivot, low). nat (int (length courses) - low))") auto

declare scan_low.simps [simp del]

function scan_high :: "Course list \<Rightarrow> string \<Rightarrow> int \<Rightarrow> error + int" where
  "scan_high courses pivot high =
     (if high < 0 \<or> int (length courses) \<le> high then Inl OutOfRange
      else if string_compare pivot (number (courses ! nat high)) < 0
        then scan_high courses pivot (high - 1)
        else Inr high)"
  by pat_completeness auto
termination
  by (relation "measure (\<lambda>(courses, pivot, high). nat (high + 1))") auto

declare scan_high.simps [simp del]

lemma scan_low_ge: "scan_low courses pivot low = Inr l \<Longrightarrow> low \<le> l"
proof (induction courses pivot low rule: scan_low.induct)
  case (1 courses pivot low)
  show ?case
  proof (cases "string_compare (number (courses ! nat low)) pivot < 0")
    case True
    with "1.prems" have "\<not> (low < 0 \<or> int (length courses) \<le> low)"
      and "scan_low courses pivot (low + 1) = Inr l"
      by (auto simp: scan_low.simps [of courses pivot low] split: if_splits)
    with True "1.IH" show ?thesis by fastforce
  next
    case False
    with "1.prems" show ?thesis
      by (auto simp: scan_low.simps [of courses pivot low] split: if_splits)
  qed
qed

lemma scan_high_le: "scan_high courses pivot high = Inr h \<Longrightarrow> h \<le> high"
proof (induction courses pivot high rule: scan_high.induct)
  case (1 courses pivot high)
  show ?case
  proof (cases "string_compare pivot (number (courses ! nat high)) < 0")
    case True
    with "1.prems" have "\<not> (high < 0 \<or> int (length courses) \<le> high)"
      and "scan_high courses pivot (high - 1) = Inr h"
      by (auto simp: scan_high.simps [of courses pivot high] split: if_splits)
    with True "1.IH" show ?thesis by fastforce
  next
    case False
    with "1.prems" show ?thesis
      by (auto simp: scan_high.simps [of courses pivot high] split: if_splits)
  qed
qed

text \<open>The exchange of \<^verbatim>\<open>courses->at(low)\<close> and \<^verbatim>\<open>courses->at(high)\<close>.\<close>

definition swap_at :: "Course list \<Rightarrow> int \<Rightarrow> int \<Rightarrow> Course list" where
  "swap_at courses low high =
     (let temp = courses ! nat low;
          courses1 = courses[nat low := courses ! nat high]
      in courses1[nat high := temp])"

text \<open>
  The loop \<^verbatim>\<open>while (!done)\<close> of the partition: the vector as the loop leaves it and
  the value of \<^verbatim>\<open>high\<close> that is returned. The exchange is reached only after both
  scans have read their final index, so both indices are in range there.
\<close>

function partition_loop ::
  "Course list \<Rightarrow> string \<Rightarrow> int \<Rightarrow> int \<Rightarrow> error + Course list \<times> int" where
  "partition_loop courses pivot low high =
     (case scan_low courses pivot low of
        Inl e \<Rightarrow> Inl e
      | Inr low' \<Rightarrow>
         (case scan_high courses pivot high of
            Inl e \<Rightarrow> Inl e
          | Inr high' \<Rightarrow>
              if low' \<ge> high' then Inr (courses, high')
              else partition_loop (swap_at courses low' high') pivot (low' + 1) (high' - 1)))"
  by pat_completeness auto
termination
proof (relation "measure (\<lambda>(courses, pivot, low, high). nat (high - low + 1))")
  show "wf (measure (\<lambda>(courses, pivot, low, high). nat (high - low + 1)))"
    by simp
next
  fix courses :: "Course list" and pivot :: string and low high l h :: int
  assume "scan_low courses pivot low = Inr l" "scan_high courses pivot high = Inr h"
    and "\<not> h \<le> l"
  moreover from this have "low \<le> l" "h \<le> high"
    by (blast dest: scan_low_ge scan_high_le)+
  ultimately show "((swap_at courses l h, pivot, l + 1, h - 1), courses, pivot, low, high)
      \<in> measure (\<lambda>(courses, pivot, low, high). nat (high - low + 1))"
    by simp
qed

declare partition_loop.simps [simp del]

text \<open>
  The lambda \<^verbatim>\<open>partition\<close>: the pivot is the number of the middle element, read
  before the loop starts. \<^verbatim>\<open>/\<close> on \<^verbatim>\<open>int\<close> truncates towards zero.
\<close>

definition partition_lambda :: "Course list \<Rightarrow> int \<Rightarrow> int \<Rightarrow> error + Course list \<times> int" where
  "partition_lambda courses low high =
     (let midpoint = low + (high - low) sdiv 2 in
      if midpoint < 0 \<or> int (length courses) \<le> midpoint then Inl OutOfRange
      else partition_loop courses (number (courses ! nat midpoint)) low high)"

text \<open>
  \<^verbatim>\<open>Quicksort\<close> calls itself on the two sides of the index that the partition
  returns, so its termination needs the partition's result: for \<open>low < high\<close> the
  partition stays within the vector, leaves \<open>low \<le> p < high\<close>, and puts numbers
  not above the pivot at \<open>low..p\<close> and numbers not below it at \<open>p+1..high\<close>.
\<close>

lemma string_compare_less [simp]: "string_compare a b < 0 \<longleftrightarrow> a < b"
  by (simp add: string_compare_def)

lemma scan_low_spec:
  assumes "0 \<le> low" "low \<le> i" "i < int (length cs)" "\<not> number (cs ! nat i) < pivot"
  shows "\<exists>l. scan_low cs pivot low = Inr l \<and> low \<le> l \<and> l \<le> i \<and>
           (\<forall>k. low \<le> k \<and> k < l \<longrightarrow> number (cs ! nat k) < pivot) \<and>
           \<not> number (cs ! nat l) < pivot"
  using assms
proof (induction cs pivot low rule: scan_low.induct)
  case (1 cs pivot low)
  have inr: "\<not> (low < 0 \<or> int (length cs) \<le> low)"
    using "1.prems" by simp
  show ?case
  proof (cases "number (cs ! nat low) < pivot")
    case True
    then have "low \<noteq> i" using "1.prems" by auto
    then have "low + 1 \<le> i" using "1.prems" by simp
    with "1.IH" inr True "1.prems" obtain l where l:
      "scan_low cs pivot (low + 1) = Inr l" "low + 1 \<le> l" "l \<le> i"
      "\<forall>k. low + 1 \<le> k \<and> k < l \<longrightarrow> number (cs ! nat k) < pivot"
      "\<not> number (cs ! nat l) < pivot"
      by fastforce
    have "scan_low cs pivot low = Inr l"
      using inr True l(1) by (simp add: scan_low.simps [of cs pivot low])
    moreover have "\<forall>k. low \<le> k \<and> k < l \<longrightarrow> number (cs ! nat k) < pivot"
    proof (intro allI impI)
      fix k assume "low \<le> k \<and> k < l"
      then consider "k = low" | "low + 1 \<le> k \<and> k < l" by linarith
      then show "number (cs ! nat k) < pivot"
        using True l(4) by cases auto
    qed
    ultimately show ?thesis using l by auto
  next
    case False
    then have "scan_low cs pivot low = Inr low"
      using inr by (simp add: scan_low.simps [of cs pivot low])
    then show ?thesis using False "1.prems" by auto
  qed
qed

lemma scan_high_spec:
  assumes "0 \<le> j" "j \<le> high" "high < int (length cs)" "\<not> pivot < number (cs ! nat j)"
  shows "\<exists>h. scan_high cs pivot high = Inr h \<and> j \<le> h \<and> h \<le> high \<and>
           (\<forall>k. h < k \<and> k \<le> high \<longrightarrow> pivot < number (cs ! nat k)) \<and>
           \<not> pivot < number (cs ! nat h)"
  using assms
proof (induction cs pivot high rule: scan_high.induct)
  case (1 cs pivot high)
  have inr: "\<not> (high < 0 \<or> int (length cs) \<le> high)"
    using "1.prems" by simp
  show ?case
  proof (cases "pivot < number (cs ! nat high)")
    case True
    then have "high \<noteq> j" using "1.prems" by auto
    then have "j \<le> high - 1" using "1.prems" by simp
    with "1.IH" inr True "1.prems" obtain h where h:
      "scan_high cs pivot (high - 1) = Inr h" "j \<le> h" "h \<le> high - 1"
      "\<forall>k. h < k \<and> k \<le> high - 1 \<longrightarrow> pivot < number (cs ! nat k)"
      "\<not> pivot < number (cs ! nat h)"
      by fastforce
    have "scan_high cs pivot high = Inr h"
      using inr True h(1) by (simp add: scan_high.simps [of cs pivot high])
    moreover have "\<forall>k. h < k \<and> k \<le> high \<longrightarrow> pivot < number (cs ! nat k)"
    proof (intro allI impI)
      fix k assume "h < k \<and> k \<le> high"
      then consider "k = high" | "h < k \<and> k \<le> high - 1" by linarith
      then show "pivot < number (cs ! nat k)"
        using True h(4) by cases auto
    qed
    ultimately show ?thesis using h by auto
  next
    case False
    then have "scan_high cs pivot high = Inr high"
      using inr by (simp add: scan_high.simps [of cs pivot high])
    then show ?thesis using False "1.prems" by auto
  qed
qed

lemma swap_at_length [simp]: "length (swap_at cs l h) = length cs"
  by (simp add: swap_at_def)

lemma swap_at_mset:
  "0 \<le> l \<Longrightarrow> l < int (length cs) \<Longrightarrow> 0 \<le> h \<Longrightarrow> h < int (length cs) \<Longrightarrow>
   mset (swap_at cs l h) = mset cs"
  by (simp add: swap_at_def Let_def mset_swap)

lemma swap_at_nth:
  "0 \<le> l \<Longrightarrow> l < int (length cs) \<Longrightarrow> 0 \<le> h \<Longrightarrow> h < int (length cs) \<Longrightarrow>
   0 \<le> k \<Longrightarrow> k < int (length cs) \<Longrightarrow>
   swap_at cs l h ! nat k = (if k = h then cs ! nat l else if k = l then cs ! nat h else cs ! nat k)"
  by (auto simp: swap_at_def Let_def nth_list_update)

lemma partition_loop_spec:
  assumes "0 \<le> lo0" "hi0 < int (length cs)" "lo0 \<le> low" "high \<le> hi0"
    and "\<exists>i. low \<le> i \<and> i \<le> hi0 \<and> pivot \<le> number (cs ! nat i) \<and> (i < hi0 \<or> high < hi0)"
    and "\<exists>j. lo0 \<le> j \<and> j \<le> high \<and> number (cs ! nat j) \<le> pivot"
    and "\<forall>k. lo0 \<le> k \<and> k < low \<longrightarrow> number (cs ! nat k) \<le> pivot"
    and "\<forall>k. high < k \<and> k \<le> hi0 \<longrightarrow> pivot \<le> number (cs ! nat k)"
  shows "\<exists>cs' p. partition_loop cs pivot low high = Inr (cs', p) \<and>
           length cs' = length cs \<and> mset cs' = mset cs \<and>
           (\<forall>k. 0 \<le> k \<and> k < int (length cs) \<and> (k < lo0 \<or> hi0 < k) \<longrightarrow> cs' ! nat k = cs ! nat k) \<and>
           lo0 \<le> p \<and> p < hi0 \<and>
           (\<forall>k. lo0 \<le> k \<and> k \<le> p \<longrightarrow> number (cs' ! nat k) \<le> pivot) \<and>
           (\<forall>k. p < k \<and> k \<le> hi0 \<longrightarrow> pivot \<le> number (cs' ! nat k))"
  using assms
proof (induction cs pivot low high rule: partition_loop.induct)
  case (1 cs pivot low high)
  note ar = "1.prems"(1-4)
  from "1.prems"(5) obtain i where i: "low \<le> i" "i \<le> hi0" "pivot \<le> number (cs ! nat i)"
    "i < hi0 \<or> high < hi0" by blast
  from "1.prems"(6) obtain j where j: "lo0 \<le> j" "j \<le> high" "number (cs ! nat j) \<le> pivot"
    by blast
  have "0 \<le> low" "i < int (length cs)" "\<not> number (cs ! nat i) < pivot"
    using ar i by auto
  from scan_low_spec [OF this(1) i(1) this(2,3)] obtain l where l:
    "scan_low cs pivot low = Inr l" "low \<le> l" "l \<le> i"
    "\<forall>k. low \<le> k \<and> k < l \<longrightarrow> number (cs ! nat k) < pivot"
    "\<not> number (cs ! nat l) < pivot" by blast
  have "0 \<le> j" "high < int (length cs)" "\<not> pivot < number (cs ! nat j)"
    using ar j by auto
  from scan_high_spec [OF this(1) j(2) this(2,3)] obtain h where h:
    "scan_high cs pivot high = Inr h" "j \<le> h" "h \<le> high"
    "\<forall>k. h < k \<and> k \<le> high \<longrightarrow> pivot < number (cs ! nat k)"
    "\<not> pivot < number (cs ! nat h)" by blast
  have bd: "lo0 \<le> l" "h \<le> hi0" "lo0 \<le> h"
    using ar l(2) h(2,3) j(1) by linarith+
  have below: "\<forall>k. lo0 \<le> k \<and> k < l \<longrightarrow> number (cs ! nat k) \<le> pivot"
  proof (intro allI impI)
    fix k assume k: "lo0 \<le> k \<and> k < l"
    show "number (cs ! nat k) \<le> pivot"
    proof (cases "k < low")
      case True then show ?thesis using "1.prems"(7) k by blast
    next
      case False then show ?thesis using l(4) k by (simp add: less_imp_le)
    qed
  qed
  have above: "\<forall>k. h < k \<and> k \<le> hi0 \<longrightarrow> pivot \<le> number (cs ! nat k)"
  proof (intro allI impI)
    fix k assume k: "h < k \<and> k \<le> hi0"
    show "pivot \<le> number (cs ! nat k)"
    proof (cases "high < k")
      case True then show ?thesis using "1.prems"(8) k by blast
    next
      case False then show ?thesis using h(4) k by (simp add: less_imp_le)
    qed
  qed
  show ?case
  proof (cases "h \<le> l")
    case True
    have res: "partition_loop cs pivot low high = Inr (cs, h)"
      using l(1) h(1) True by (simp add: partition_loop.simps [of cs pivot low high])
    have "lo0 \<le> h" using j h by simp
    moreover have "h < hi0" using True l(3) i(2,4) h(3) ar by linarith
    moreover have "\<forall>k. lo0 \<le> k \<and> k \<le> h \<longrightarrow> number (cs ! nat k) \<le> pivot"
    proof (intro allI impI)
      fix k assume k: "lo0 \<le> k \<and> k \<le> h"
      show "number (cs ! nat k) \<le> pivot"
      proof (cases "k < l")
        case True then show ?thesis using below k by blast
      next
        case False
        with k \<open>h \<le> l\<close> have "k = h" by linarith
        then show ?thesis using h(5) by simp
      qed
    qed
    ultimately show ?thesis using res above by auto
  next
    case False
    then have lh: "l < h" by simp
    let ?cs = "swap_at cs l h"
    have rng: "0 \<le> l" "l < int (length cs)" "0 \<le> h" "h < int (length cs)"
      using ar bd lh by linarith+
    have nth: "\<And>k. 0 \<le> k \<Longrightarrow> k < int (length cs) \<Longrightarrow>
        ?cs ! nat k = (if k = h then cs ! nat l else if k = l then cs ! nat h else cs ! nat k)"
      using swap_at_nth [OF rng] by blast
    have step: "partition_loop cs pivot low high = partition_loop ?cs pivot (l + 1) (h - 1)"
      using l(1) h(1) False by (simp add: partition_loop.simps [of cs pivot low high])
    have p1: "0 \<le> lo0" "hi0 < int (length ?cs)" "lo0 \<le> l + 1" "h - 1 \<le> hi0"
      using ar bd by simp_all
    have p5: "\<exists>i. l + 1 \<le> i \<and> i \<le> hi0 \<and> pivot \<le> number (?cs ! nat i) \<and> (i < hi0 \<or> h - 1 < hi0)"
    proof (intro exI [of _ h] conjI)
      show "l + 1 \<le> h" using lh by simp
      show "h \<le> hi0" using bd by simp
      show "pivot \<le> number (?cs ! nat h)" using nth [of h] rng l(5) by simp
      show "h < hi0 \<or> h - 1 < hi0" using bd by simp
    qed
    have p6: "\<exists>j. lo0 \<le> j \<and> j \<le> h - 1 \<and> number (?cs ! nat j) \<le> pivot"
    proof (intro exI [of _ l] conjI)
      show "lo0 \<le> l" using bd by simp
      show "l \<le> h - 1" using lh by simp
      show "number (?cs ! nat l) \<le> pivot" using nth [of l] rng h(5) lh by simp
    qed
    have p7: "\<forall>k. lo0 \<le> k \<and> k < l + 1 \<longrightarrow> number (?cs ! nat k) \<le> pivot"
    proof (intro allI impI)
      fix k assume k: "lo0 \<le> k \<and> k < l + 1"
      then have kr: "0 \<le> k" "k < int (length cs)" using ar rng by linarith+
      show "number (?cs ! nat k) \<le> pivot"
      proof (cases "k = l")
        case True then show ?thesis using nth [of l] rng h(5) lh by simp
      next
        case False
        then have "k < l" using k by simp
        then show ?thesis using nth [OF kr] below k lh by simp
      qed
    qed
    have p8: "\<forall>k. h - 1 < k \<and> k \<le> hi0 \<longrightarrow> pivot \<le> number (?cs ! nat k)"
    proof (intro allI impI)
      fix k assume k: "h - 1 < k \<and> k \<le> hi0"
      then have kr: "0 \<le> k" "k < int (length cs)" using ar rng by linarith+
      show "pivot \<le> number (?cs ! nat k)"
      proof (cases "k = h")
        case True then show ?thesis using nth [of h] rng l(5) by simp
      next
        case False
        then have "h < k" using k by simp
        then show ?thesis using nth [OF kr] above k lh by simp
      qed
    qed
    from "1.IH" [OF l(1) h(1) False p1 p5 p6 p7 p8] obtain cs' p where r:
      "partition_loop ?cs pivot (l + 1) (h - 1) = Inr (cs', p)"
      "length cs' = length ?cs" "mset cs' = mset ?cs"
      "\<forall>k. 0 \<le> k \<and> k < int (length ?cs) \<and> (k < lo0 \<or> hi0 < k) \<longrightarrow> cs' ! nat k = ?cs ! nat k"
      "lo0 \<le> p" "p < hi0"
      "\<forall>k. lo0 \<le> k \<and> k \<le> p \<longrightarrow> number (cs' ! nat k) \<le> pivot"
      "\<forall>k. p < k \<and> k \<le> hi0 \<longrightarrow> pivot \<le> number (cs' ! nat k)"
      by blast
    have out: "\<forall>k. 0 \<le> k \<and> k < int (length cs) \<and> (k < lo0 \<or> hi0 < k) \<longrightarrow> cs' ! nat k = cs ! nat k"
    proof (intro allI impI)
      fix k assume k: "0 \<le> k \<and> k < int (length cs) \<and> (k < lo0 \<or> hi0 < k)"
      then have "k \<noteq> l" "k \<noteq> h" using bd lh by linarith+
      then have "?cs ! nat k = cs ! nat k" using nth [of k] k by simp
      moreover have "cs' ! nat k = ?cs ! nat k" using r(4) k by simp
      ultimately show "cs' ! nat k = cs ! nat k" by simp
    qed
    have "mset cs' = mset cs" using r(3) swap_at_mset [OF rng] by simp
    moreover have "length cs' = length cs" using r(2) by simp
    ultimately show ?thesis using step r out by auto
  qed
qed

lemma midpoint_bounds:
  assumes "low < (high :: int)"
  shows "low \<le> low + (high - low) sdiv 2" "low + (high - low) sdiv 2 < high"
  using assms by (simp_all add: signed_divide_int_def sgn_if)

lemma scan_low_Inr_range:
  "scan_low cs pivot low = Inr l \<Longrightarrow> 0 \<le> low \<and> low < int (length cs)"
  by (auto simp: scan_low.simps [of cs pivot low] split: if_splits)

lemma scan_high_Inr_range:
  "scan_high cs pivot high = Inr h \<Longrightarrow> 0 \<le> high \<and> high < int (length cs)"
  by (auto simp: scan_high.simps [of cs pivot high] split: if_splits)

lemma partition_loop_Inr_range:
  "partition_loop cs pivot low high = Inr r \<Longrightarrow> 0 \<le> low \<and> high < int (length cs)"
  by (auto simp: partition_loop.simps [of cs pivot low high] split: sum.splits
      dest: scan_low_Inr_range scan_high_Inr_range)

lemma partition_lambda_Inr_range:
  "partition_lambda cs low high = Inr r \<Longrightarrow> 0 \<le> low \<and> high < int (length cs)"
  by (auto simp: partition_lambda_def Let_def split: if_splits dest: partition_loop_Inr_range)

lemma partition_lambda_spec:
  assumes "0 \<le> low" "low < high" "high < int (length cs)"
  shows "\<exists>cs' p pivot. partition_lambda cs low high = Inr (cs', p) \<and>
           length cs' = length cs \<and> mset cs' = mset cs \<and>
           (\<forall>k. 0 \<le> k \<and> k < int (length cs) \<and> (k < low \<or> high < k) \<longrightarrow> cs' ! nat k = cs ! nat k) \<and>
           low \<le> p \<and> p < high \<and>
           (\<forall>k. low \<le> k \<and> k \<le> p \<longrightarrow> number (cs' ! nat k) \<le> pivot) \<and>
           (\<forall>k. p < k \<and> k \<le> high \<longrightarrow> pivot \<le> number (cs' ! nat k))"
proof -
  let ?mid = "low + (high - low) sdiv 2"
  let ?pivot = "number (cs ! nat ?mid)"
  have mid: "low \<le> ?mid" "?mid < high"
    using midpoint_bounds [OF assms(2)] by blast+
  then have inr: "\<not> (?mid < 0 \<or> int (length cs) \<le> ?mid)"
    using assms by linarith
  have eq: "partition_lambda cs low high = partition_loop cs ?pivot low high"
    using inr by (simp add: partition_lambda_def Let_def)
  have a5: "\<exists>i. low \<le> i \<and> i \<le> high \<and> ?pivot \<le> number (cs ! nat i) \<and> (i < high \<or> high < high)"
    using mid by (intro exI [of _ ?mid]) simp
  have a6: "\<exists>j. low \<le> j \<and> j \<le> high \<and> number (cs ! nat j) \<le> ?pivot"
    using mid by (intro exI [of _ ?mid]) simp
  have a7: "\<forall>k. low \<le> k \<and> k < low \<longrightarrow> number (cs ! nat k) \<le> ?pivot" by simp
  have a8: "\<forall>k. high < k \<and> k \<le> high \<longrightarrow> ?pivot \<le> number (cs ! nat k)" by simp
  from partition_loop_spec [OF assms(1) assms(3) order_refl order_refl a5 a6 a7 a8]
  show ?thesis unfolding eq by blast
qed

lemma partition_lambda_bounds:
  assumes "partition_lambda cs low high = Inr (cs', p)" "low < high"
  shows "low \<le> p \<and> p < high"
proof -
  from partition_lambda_Inr_range [OF assms(1)]
  have "0 \<le> low" "high < int (length cs)" by simp_all
  from partition_lambda_spec [OF this(1) assms(2) this(2)] assms(1)
  show ?thesis by auto
qed

text \<open>
  \<^verbatim>\<open>Quicksort\<close>. The vector behind the pointer is passed in and returned; the
  second recursive call works on the vector as the first one left it.
\<close>

function Quicksort :: "Course list \<Rightarrow> int \<Rightarrow> int \<Rightarrow> error + Course list" where
  "Quicksort courses lowIndex highIndex =
     (if lowIndex \<ge> highIndex then Inr courses
      else
        (case partition_lambda courses lowIndex highIndex of
           Inl e \<Rightarrow> Inl e
         | Inr (courses1, lowEndIndex) \<Rightarrow>
            (case Quicksort courses1 lowIndex lowEndIndex of
               Inl e \<Rightarrow> Inl e
             | Inr courses2 \<Rightarrow> Quicksort courses2 (lowEndIndex + 1) highIndex)))"
  by pat_completeness auto
termination
proof (relation "measure (\<lambda>(courses, lowIndex, highIndex). nat (highIndex - lowIndex))")
  show "wf (measure (\<lambda>(courses, lowIndex, highIndex). nat (highIndex - lowIndex)))"
    by simp
next
  fix courses :: "Course list" and lowIndex highIndex :: int and x2 courses1 lowEndIndex
  assume "\<not> highIndex \<le> lowIndex"
    and "partition_lambda courses lowIndex highIndex = Inr x2" "(courses1, lowEndIndex) = x2"
  then have "lowIndex \<le> lowEndIndex \<and> lowEndIndex < highIndex"
    using partition_lambda_bounds [of courses lowIndex highIndex courses1 lowEndIndex] by simp
  then show "((courses1, lowIndex, lowEndIndex), courses, lowIndex, highIndex)
      \<in> measure (\<lambda>(courses, lowIndex, highIndex). nat (highIndex - lowIndex))"
    by simp
next
  fix courses :: "Course list" and lowIndex highIndex :: int and x2 courses1 lowEndIndex
    and courses2 :: "Course list"
  assume "\<not> highIndex \<le> lowIndex"
    and "partition_lambda courses lowIndex highIndex = Inr x2" "(courses1, lowEndIndex) = x2"
  then have "lowIndex \<le> lowEndIndex \<and> lowEndIndex < highIndex"
    using partition_lambda_bounds [of courses lowIndex highIndex courses1 lowEndIndex] by simp
  then show "((courses2, lowEndIndex + 1, highIndex), courses, lowIndex, highIndex)
      \<in> measure (\<lambda>(courses, lowIndex, highIndex). nat (highIndex - lowIndex))"
    by simp
qed

declare Quicksort.simps [simp del]

section \<open>The menu of main\<close>

text \<open>
  The conversion of a \<^verbatim>\<open>size_t\<close> argument to an \<^verbatim>\<open>int\<close> parameter: the low 32
  bits, read as two's complement.
\<close>

definition to_int :: "nat \<Rightarrow> int" where
  "to_int n = (let m = n mod 2 ^ 32 in if m < 2 ^ 31 then int m else int m - 2 ^ 32)"

text \<open>
  Menu choice 2 up to the printing:
  \<^verbatim>\<open>courses = data.toVector(); Quicksort(&courses, 0, courses.size() - 1)\<close>.
\<close>

definition main_case_2 :: "HashTable \<Rightarrow> error + Course list" where
  "main_case_2 data_table =
     (let courses = HashTable_toVector data_table
      in Quicksort courses 0 (to_int (size_t_sub (length courses) 1)))"

text \<open>
  Menu choice 3: what is printed for a course number. The result of \<^verbatim>\<open>search\<close> is
  taken as "not found" exactly when its title is empty.
\<close>

datatype console_line = CouldNotFind string | Printed Course

definition main_case_3 :: "64 word \<Rightarrow> HashTable \<Rightarrow> string \<Rightarrow> error + console_line" where
  "main_case_3 sum0 data_table course_number =
     (case HashTable_search sum0 course_number data_table of
        Inl e \<Rightarrow> Inl e
      | Inr result \<Rightarrow>
          if string_compare (title result) [] = 0 then Inr (CouldNotFind course_number)
          else Inr (Printed result))"

section \<open>The records a table holds\<close>

text \<open>
  The records of a chain from a node on, in chain order; the records of a slot (none
  when the slot is empty); and the records of the table, slot by slot. These are used to
  state properties only.
\<close>

fun chain_list :: "Node \<Rightarrow> Course list" where
  "chain_list (Node c k None) = [c]"
| "chain_list (Node c k (Some nd)) = c # chain_list nd"

definition slot_records :: "Node \<Rightarrow> Course list" where
  "slot_records head = (if key head \<noteq> UINT_MAX then chain_list head else [])"

definition stored_records :: "HashTable \<Rightarrow> Course list" where
  "stored_records t = concat (map slot_records (m_nodes t))"

text \<open>
  What the constructor establishes and the operations keep: \<^verbatim>\<open>m_nodes\<close> has
  \<^verbatim>\<open>m_size\<close> slots, and \<^verbatim>\<open>m_size\<close> is an \<^verbatim>\<open>unsigned int\<close>.
\<close>

definition table_inv :: "HashTable \<Rightarrow> bool" where
  "table_inv t = (length (m_nodes t) = m_size t \<and> m_size t \<le> UINT_MAX)"

section \<open>Example inputs\<close>

text \<open>The example file of the specification: two rows, each ended by a newline.\<close>

definition example_file :: string where
  "example_file = ''CS101,Intro,CS100'' @ [CHR 0x0A] @ ''CS100,Basics'' @ [CHR 0x0A]"

text \<open>The table of two slots after that file is loaded (see \<open>example_file_load\<close>).\<close>

definition example_loaded :: HashTable where
  "example_loaded =
     \<lparr>m_nodes =
        [Node \<lparr>number = ''CS101'', title = ''Intro'', prerequisites = [''CS10'']\<rparr> 0 None,
         Node \<lparr>number = ''CS100'', title = [], prerequisites = [''Basic'']\<rparr> 1 None],
      m_size = 2\<rparr>"

text \<open>A file whose rows all end with a delimiter, with the number \<open>B\<close> on two rows.\<close>

definition dup_file :: string where
  "dup_file = ''A,a,'' @ [CHR 0x0A] @ ''B,b,'' @ [CHR 0x0A] @ ''X,x,'' @ [CHR 0x0A]
     @ ''B,b,'' @ [CHR 0x0A] @ ''Y,y,'' @ [CHR 0x0A]"

definition course_of :: "string \<Rightarrow> string \<Rightarrow> Course" where
  "course_of n ti = \<lparr>number = n, title = ti, prerequisites = []\<rparr>"

text \<open>The one-slot table after \<open>dup_file\<close> is loaded, and after \<open>B\<close> is removed from it.\<close>

definition dup_table :: HashTable where
  "dup_table =
     \<lparr>m_nodes =
        [Node (course_of ''A'' ''a'') 0 (Some (Node (course_of ''B'' ''b'') 0
          (Some (Node (course_of ''X'' ''x'') 0 (Some (Node (course_of ''B'' ''b'') 0
            (Some (Node (course_of ''Y'' ''y'') 0 None))))))))],
      m_size = 1\<rparr>"

definition dup_table_removed :: HashTable where
  "dup_table_removed =
     \<lparr>m_nodes =
        [Node (course_of ''A'' ''a'') 0 (Some (Node (course_of ''X'' ''x'') 0
          (Some (Node (course_of ''Y'' ''y'') 0 None))))],
      m_size = 1\<rparr>"

text \<open>A one-slot table with a head and one chain node.\<close>

definition two_table :: HashTable where
  "two_table =
     \<lparr>m_nodes = [Node (course_of ''A'' ''a'') 0 (Some (Node (course_of ''B'' ''b'') 0 None))],
      m_size = 1\<rparr>"

text \<open>A one-slot table holding the record whose three fields are empty.\<close>

definition empty_record_table :: HashTable where
  "empty_record_table = \<lparr>m_nodes = [Node Course_default 0 None], m_size = 1\<rparr>"

text \<open>A one-slot table holding a record with a number and an empty title.\<close>

definition untitled_table :: HashTable where
  "untitled_table =
     \<lparr>m_nodes = [Node \<lparr>number = ''CS100'', title = [], prerequisites = [''Basic'']\<rparr> 0 None],
      m_size = 1\<rparr>"

text \<open>A table with a chain whose numbers are out of order.\<close>

definition unsorted_table :: HashTable where
  "unsorted_table =
     \<lparr>m_nodes =
        [Node (course_of ''MATH201'' ''Discrete Mathematics'') 0
          (Some (Node (course_of ''CSCI100'' ''Introduction to Computer Science'') 0 None))],
      m_size = 1\<rparr>"

section \<open>Properties of Quicksort\<close>

lemma range_perm:
  fixes xs ys :: "'a list"
  assumes len: "length ys = length xs" and ms: "mset ys = mset xs"
    and out: "\<forall>k<length xs. k < lo \<or> hi < k \<longrightarrow> ys ! k = xs ! k"
    and i: "lo \<le> i" "i \<le> hi" "hi < length xs"
  shows "\<exists>k. lo \<le> k \<and> k \<le> hi \<and> ys ! i = xs ! k"
proof -
  let ?n = "Suc hi - lo"
  have pre: "take lo ys = take lo xs"
    using len out i by (intro nth_equalityI) auto
  have post: "drop (lo + ?n) ys = drop (lo + ?n) xs"
    using len out i by (intro nth_equalityI) auto
  have split: "\<And>zs :: 'a list. zs = take lo zs @ take ?n (drop lo zs) @ drop (lo + ?n) zs"
    by (metis add.commute append_take_drop_id drop_drop)
  have "mset ys = mset (take lo ys) + mset (take ?n (drop lo ys)) + mset (drop (lo + ?n) ys)"
    by (subst split [of ys]) (simp only: mset_append add.assoc)
  moreover have "mset xs = mset (take lo xs) + mset (take ?n (drop lo xs)) + mset (drop (lo + ?n) xs)"
    by (subst split [of xs]) (simp only: mset_append add.assoc)
  ultimately have "mset (take ?n (drop lo ys)) = mset (take ?n (drop lo xs))"
    using ms pre post by simp
  then have "set (take ?n (drop lo ys)) = set (take ?n (drop lo xs))"
    by (rule mset_eq_setD)
  moreover have "ys ! i \<in> set (take ?n (drop lo ys))"
  proof -
    have "i - lo < length (take ?n (drop lo ys))" using i len by simp
    moreover have "take ?n (drop lo ys) ! (i - lo) = ys ! i" using i len by simp
    ultimately show ?thesis by (metis nth_mem)
  qed
  ultimately have "ys ! i \<in> set (take ?n (drop lo xs))" by simp
  then obtain m where m: "m < length (take ?n (drop lo xs))" "take ?n (drop lo xs) ! m = ys ! i"
    by (auto simp: in_set_conv_nth)
  then have "m < ?n" "lo + m < length xs" by auto
  then have "xs ! (lo + m) = ys ! i" using m by simp
  then show ?thesis using \<open>m < ?n\<close> by (intro exI [of _ "lo + m"]) auto
qed

lemma range_perm_int:
  assumes "length ys = length xs" "mset ys = mset xs"
    and "\<forall>k. 0 \<le> k \<and> k < int (length xs) \<and> (k < lo \<or> hi < k) \<longrightarrow> ys ! nat k = xs ! nat k"
    and "0 \<le> lo" "lo \<le> i" "i \<le> hi" "hi < int (length xs)"
  shows "\<exists>k. lo \<le> k \<and> k \<le> hi \<and> ys ! nat i = xs ! nat k"
proof -
  have out: "\<forall>k<length xs. k < nat lo \<or> nat hi < k \<longrightarrow> ys ! k = xs ! k"
  proof (intro allI impI)
    fix k assume "k < length xs" "k < nat lo \<or> nat hi < k"
    then have "0 \<le> int k \<and> int k < int (length xs) \<and> (int k < lo \<or> hi < int k)"
      using assms(4-7) by auto
    with assms(3) have "ys ! nat (int k) = xs ! nat (int k)" by blast
    then show "ys ! k = xs ! k" by simp
  qed
  have "nat lo \<le> nat i" "nat i \<le> nat hi" "nat hi < length xs"
    using assms(4-7) by auto
  from range_perm [OF assms(1,2) out this] obtain k where
    "nat lo \<le> k" "k \<le> nat hi" "ys ! nat i = xs ! k" by blast
  then show ?thesis using assms(4-7) by (intro exI [of _ "int k"]) auto
qed

lemma Quicksort_spec:
  assumes "low < high \<longrightarrow> 0 \<le> low \<and> high < int (length cs)"
  shows "\<exists>cs'. Quicksort cs low high = Inr cs' \<and> length cs' = length cs \<and> mset cs' = mset cs \<and>
           (\<forall>k. 0 \<le> k \<and> k < int (length cs) \<and> (k < low \<or> high < k) \<longrightarrow> cs' ! nat k = cs ! nat k) \<and>
           (\<forall>i j. low \<le> i \<and> i \<le> j \<and> j \<le> high \<longrightarrow> number (cs' ! nat i) \<le> number (cs' ! nat j))"
  using assms
proof (induction cs low high rule: Quicksort.induct)
  case (1 cs low high)
  show ?case
  proof (cases "high \<le> low")
    case True
    then have "Quicksort cs low high = Inr cs"
      by (simp add: Quicksort.simps [of cs low high])
    moreover have "\<forall>i j. low \<le> i \<and> i \<le> j \<and> j \<le> high \<longrightarrow> number (cs ! nat i) \<le> number (cs ! nat j)"
    proof (intro allI impI)
      fix i j assume "low \<le> i \<and> i \<le> j \<and> j \<le> high"
      with True have "i = j" by linarith
      then show "number (cs ! nat i) \<le> number (cs ! nat j)" by simp
    qed
    ultimately show ?thesis by simp
  next
    case False
    then have lh: "low < high" by simp
    with "1.prems" have rng: "0 \<le> low" "high < int (length cs)" by simp_all
    from partition_lambda_spec [OF rng(1) lh rng(2)] obtain cs1 p pivot where part:
      "partition_lambda cs low high = Inr (cs1, p)"
      "length cs1 = length cs" "mset cs1 = mset cs"
      "\<forall>k. 0 \<le> k \<and> k < int (length cs) \<and> (k < low \<or> high < k) \<longrightarrow> cs1 ! nat k = cs ! nat k"
      "low \<le> p" "p < high"
      "\<forall>k. low \<le> k \<and> k \<le> p \<longrightarrow> number (cs1 ! nat k) \<le> pivot"
      "\<forall>k. p < k \<and> k \<le> high \<longrightarrow> pivot \<le> number (cs1 ! nat k)"
      by blast
    have pre1: "low < p \<longrightarrow> 0 \<le> low \<and> p < int (length cs1)"
      using rng part(2,6) by simp
    from "1.IH"(1) [OF False part(1) refl pre1] obtain cs2 where q1:
      "Quicksort cs1 low p = Inr cs2" "length cs2 = length cs1" "mset cs2 = mset cs1"
      "\<forall>k. 0 \<le> k \<and> k < int (length cs1) \<and> (k < low \<or> p < k) \<longrightarrow> cs2 ! nat k = cs1 ! nat k"
      "\<forall>i j. low \<le> i \<and> i \<le> j \<and> j \<le> p \<longrightarrow> number (cs2 ! nat i) \<le> number (cs2 ! nat j)"
      by blast
    have pre2: "p + 1 < high \<longrightarrow> 0 \<le> p + 1 \<and> high < int (length cs2)"
      using rng part(2,5) q1(2) by simp
    from "1.IH"(2) [OF False part(1) refl q1(1) pre2] obtain cs3 where q2:
      "Quicksort cs2 (p + 1) high = Inr cs3" "length cs3 = length cs2" "mset cs3 = mset cs2"
      "\<forall>k. 0 \<le> k \<and> k < int (length cs2) \<and> (k < p + 1 \<or> high < k) \<longrightarrow> cs3 ! nat k = cs2 ! nat k"
      "\<forall>i j. p + 1 \<le> i \<and> i \<le> j \<and> j \<le> high \<longrightarrow> number (cs3 ! nat i) \<le> number (cs3 ! nat j)"
      by blast
    have res: "Quicksort cs low high = Inr cs3"
      using False part(1) q1(1) q2(1) by (simp add: Quicksort.simps [of cs low high])
    have len: "length cs3 = length cs" "length cs2 = length cs" "length cs1 = length cs"
      using part(2) q1(2) q2(2) by simp_all
    have ms: "mset cs3 = mset cs"
      using part(3) q1(3) q2(3) by simp
    have out: "\<forall>k. 0 \<le> k \<and> k < int (length cs) \<and> (k < low \<or> high < k) \<longrightarrow> cs3 ! nat k = cs ! nat k"
    proof (intro allI impI)
      fix k assume k: "0 \<le> k \<and> k < int (length cs) \<and> (k < low \<or> high < k)"
      then have "cs3 ! nat k = cs2 ! nat k" using q2(4) len part(5) by auto
      moreover have "cs2 ! nat k = cs1 ! nat k" using q1(4) len part(6) k by auto
      moreover have "cs1 ! nat k = cs ! nat k" using part(4) k by blast
      ultimately show "cs3 ! nat k = cs ! nat k" by simp
    qed
    have left: "number (cs3 ! nat i) \<le> pivot" if i: "low \<le> i" "i \<le> p" for i
    proof -
      have ir: "0 \<le> i \<and> i < int (length cs2) \<and> (i < p + 1 \<or> high < i)"
        using i rng len part(6) by auto
      then have e: "cs3 ! nat i = cs2 ! nat i" using q2(4) by blast
      have "p < int (length cs1)" using part(6) rng len by simp
      from range_perm_int [OF q1(2) q1(3) q1(4) rng(1) i this]
      obtain k where "low \<le> k" "k \<le> p" "cs2 ! nat i = cs1 ! nat k" by blast
      then show ?thesis using part(7) e by simp
    qed
    have right: "pivot \<le> number (cs3 ! nat j)" if j: "p < j" "j \<le> high" for j
    proof -
      have p0: "0 \<le> p + 1" "p + 1 \<le> j" "high < int (length cs2)"
        using j rng len part(5) by auto
      from range_perm_int [OF q2(2) q2(3) q2(4) p0(1) p0(2) j(2) p0(3)]
      obtain k where k: "p + 1 \<le> k" "k \<le> high" "cs3 ! nat j = cs2 ! nat k" by blast
      then have "0 \<le> k \<and> k < int (length cs1) \<and> (k < low \<or> p < k)"
        using rng len part(5) by auto
      then have "cs2 ! nat k = cs1 ! nat k" using q1(4) by blast
      then show ?thesis using part(8) k by simp
    qed
    have srt: "\<forall>i j. low \<le> i \<and> i \<le> j \<and> j \<le> high \<longrightarrow> number (cs3 ! nat i) \<le> number (cs3 ! nat j)"
    proof (intro allI impI)
      fix i j assume ij: "low \<le> i \<and> i \<le> j \<and> j \<le> high"
      consider "j \<le> p" | "p < i" | "i \<le> p \<and> p < j" by linarith
      then show "number (cs3 ! nat i) \<le> number (cs3 ! nat j)"
      proof cases
        case 1
        have "0 \<le> i \<and> i < int (length cs2) \<and> (i < p + 1 \<or> high < i)"
          and "0 \<le> j \<and> j < int (length cs2) \<and> (j < p + 1 \<or> high < j)"
          using 1 ij rng len part(6) by auto
        then have "cs3 ! nat i = cs2 ! nat i" "cs3 ! nat j = cs2 ! nat j"
          using q2(4) by blast+
        then show ?thesis using q1(5) ij 1 by simp
      next
        case 2
        then show ?thesis using q2(5) ij by simp
      next
        case 3
        then have "number (cs3 ! nat i) \<le> pivot" "pivot \<le> number (cs3 ! nat j)"
          using left [of i] right [of j] ij by simp_all
        then show ?thesis by (rule order_trans)
      qed
    qed
    show ?thesis using res len(1) ms out srt by blast
  qed
qed

section \<open>Properties of the table operations\<close>

lemma size_t_sub_le:
  assumes "b \<le> a" "a < 2 ^ 64"
  shows "size_t_sub a b = a - b"
proof -
  have "b mod 2 ^ 64 = b" using assms by simp
  moreover have "a + 2 ^ 64 - b = (a - b) + 2 ^ 64" using assms by simp
  ultimately have "size_t_sub a b = ((a - b) + 2 ^ 64) mod 2 ^ 64"
    by (simp only: size_t_sub_def)
  also have "\<dots> = (a - b) mod 2 ^ 64" by (rule mod_add_self2)
  also have "\<dots> = a - b" using assms by (simp add: less_imp_diff_less)
  finally show ?thesis .
qed

lemma to_int_size_minus_1:
  assumes "n < 2 ^ 31"
  shows "to_int (size_t_sub n 1) = int n - 1"
proof (cases "n = 0")
  case True
  then show ?thesis by (simp add: to_int_def size_t_sub_def)
next
  case False
  then have "size_t_sub n 1 = n - 1"
    using assms by (intro size_t_sub_le) simp_all
  moreover have "(n - 1) mod 2 ^ 32 = n - 1" using assms by simp
  ultimately show ?thesis using assms False by (simp add: to_int_def Let_def)
qed

lemma chain_list_head:
  "chain_list head = course head # (case next_ptr head of None \<Rightarrow> [] | Some nd \<Rightarrow> chain_list nd)"
  by (cases head rule: chain_list.cases) simp_all

lemma chain_list_not_Nil [simp]: "chain_list nd \<noteq> []"
  by (subst chain_list_head) simp

lemma toVector_chain_eq:
  "toVector_chain nxt courses =
     courses @ (case nxt of None \<Rightarrow> [] | Some nd \<Rightarrow> chain_list nd)"
proof (induction nxt courses rule: toVector_chain.induct)
  case (1 courses)
  show ?case by simp
next
  case (2 c k nxt courses)
  then show ?case by (cases nxt) simp_all
qed

lemma toVector_slots_eq:
  "toVector_slots nodes courses = courses @ concat (map slot_records nodes)"
proof (induction nodes courses rule: toVector_slots.induct)
  case (1 courses)
  show ?case by simp
next
  case (2 head rest courses)
  show ?case
  proof (cases "key head \<noteq> UINT_MAX")
    case True
    with 2 show ?thesis
      by (simp add: toVector_chain_eq slot_records_def chain_list_head [of head])
  next
    case False
    with 2 show ?thesis by (simp add: slot_records_def)
  qed
qed

lemma toVector_stored: "HashTable_toVector t = stored_records t"
  by (simp add: HashTable_toVector_def stored_records_def toVector_slots_eq)

lemma main_case_2_sorts:
  assumes "length (HashTable_toVector t) < 2 ^ 31"
  shows "\<exists>courses. main_case_2 t = Inr courses \<and>
           sorted (map number courses) \<and> mset courses = mset (HashTable_toVector t)"
proof -
  let ?cs = "HashTable_toVector t"
  have hi: "to_int (size_t_sub (length ?cs) 1) = int (length ?cs) - 1"
    using assms by (rule to_int_size_minus_1)
  have "0 < int (length ?cs) - 1 \<longrightarrow> (0::int) \<le> 0 \<and> int (length ?cs) - 1 < int (length ?cs)"
    by simp
  from Quicksort_spec [OF this] obtain cs' where q:
    "Quicksort ?cs 0 (int (length ?cs) - 1) = Inr cs'" "length cs' = length ?cs"
    "mset cs' = mset ?cs"
    "\<forall>i j. 0 \<le> i \<and> i \<le> j \<and> j \<le> int (length ?cs) - 1 \<longrightarrow> number (cs' ! nat i) \<le> number (cs' ! nat j)"
    by blast
  have "sorted (map number cs')"
    unfolding sorted_iff_nth_mono
  proof (intro allI impI)
    fix i j assume ij: "i \<le> j" "j < length (map number cs')"
    then have "0 \<le> int i \<and> int i \<le> int j \<and> int j \<le> int (length ?cs) - 1"
      using q(2) by simp
    with q(4) have "number (cs' ! nat (int i)) \<le> number (cs' ! nat (int j))" by blast
    then show "map number cs' ! i \<le> map number cs' ! j" using ij by simp
  qed
  moreover have "main_case_2 t = Inr cs'"
    using q(1) hi by (simp add: main_case_2_def Let_def)
  ultimately show ?thesis using q(3) by blast
qed

lemma hash_bound: "hash sum0 size_m key_str = Inr k \<Longrightarrow> k < size_m"
  by (auto simp: hash_def split: sum.splits if_splits)

lemma search_chain_Some:
  "search_chain n (Some nd) =
     (case List.find (\<lambda>c. number c = n) (chain_list nd) of None \<Rightarrow> Course_default | Some c \<Rightarrow> c)"
  by (induction nd rule: chain_list.induct) simp_all

lemma HashTable_search_find:
  assumes "hash sum0 (m_size t) n = Inr k" "table_inv t"
  shows "HashTable_search sum0 n t =
     Inr (case List.find (\<lambda>c. number c = n) (slot_records (m_nodes t ! k)) of
            None \<Rightarrow> Course_default | Some c \<Rightarrow> c)"
proof -
  have k: "\<not> length (m_nodes t) \<le> k"
    using hash_bound [OF assms(1)] assms(2) by (simp add: table_inv_def)
  obtain c kk nxt where head: "m_nodes t ! k = Node c kk nxt"
    by (cases "m_nodes t ! k") auto
  show ?thesis
  proof (cases nxt)
    case None
    then show ?thesis
      using k assms(1) head by (simp add: HashTable_search_def slot_records_def)
  next
    case (Some nd)
    then show ?thesis
      using k assms(1) head
      by (simp add: HashTable_search_def slot_records_def search_chain_Some)
  qed
qed

lemma chain_list_Cons2:
  assumes "chain_list nd = a # b # rest"
  obtains k nd1 where "nd = Node a k (Some nd1)" "chain_list nd1 = b # rest"
proof (cases nd)
  case (Node c k nxt)
  show ?thesis
  proof (cases nxt)
    case None
    with Node assms show ?thesis by simp
  next
    case (Some nd1)
    with Node assms have "nd = Node a k (Some nd1)" "chain_list nd1 = b # rest" by simp_all
    then show ?thesis by (rule that)
  qed
qed

lemma chain_list_single:
  assumes "chain_list nd = [a]"
  obtains k where "nd = Node a k None"
proof (cases nd)
  case (Node c k nxt)
  show ?thesis
  proof (cases nxt)
    case None
    with Node assms have "nd = Node a k None" by simp
    then show ?thesis by (rule that)
  next
    case (Some nd1)
    with Node assms show ?thesis by simp
  qed
qed

lemma remove_chain_last_match:
  assumes "chain_list nd = c0 # cs @ [c]" "number c = n" "\<forall>x \<in> set cs. number x \<noteq> n"
  shows "remove_chain n nd = Inl NullDeref"
  using assms
proof (induction cs arbitrary: nd c0)
  case Nil
  then have cl: "chain_list nd = c0 # c # []" by simp
  from chain_list_Cons2 [OF cl] obtain k nd1 where nd: "nd = Node c0 k (Some nd1)"
    and nd1: "chain_list nd1 = [c]" by blast
  from chain_list_single [OF nd1] obtain k1 where "nd1 = Node c k1 None" by blast
  with nd Nil.prems(2) show ?case by simp
next
  case (Cons x cs)
  then have cl: "chain_list nd = c0 # x # (cs @ [c])" by simp
  from chain_list_Cons2 [OF cl] obtain k nd1 where nd: "nd = Node c0 k (Some nd1)"
    and nd1: "chain_list nd1 = x # cs @ [c]" by blast
  have ih: "remove_chain n nd1 = Inl NullDeref"
    using Cons.IH [OF nd1 Cons.prems(2)] Cons.prems(3) by simp
  obtain c1 k1 nxt1 where n1: "nd1 = Node c1 k1 nxt1" by (cases nd1) auto
  then have "c1 = x" using nd1 by (cases nxt1) simp_all
  then have "number c1 \<noteq> n" using Cons.prems(3) by simp
  then show ?case using nd n1 ih by simp
qed

lemma remove_chain_no_match:
  "\<forall>x \<in> set (tl (chain_list nd)). number x \<noteq> n \<Longrightarrow> remove_chain n nd = Inr nd"
proof (induction n nd rule: remove_chain.induct)
  case (1 n c k)
  show ?case by simp
next
  case (2 n c k c1 k1 nxt1)
  have c1: "number c1 \<noteq> n" using "2.prems" by (cases nxt1) simp_all
  have "\<forall>x \<in> set (tl (chain_list (Node c1 k1 nxt1))). number x \<noteq> n"
    using "2.prems" by (cases nxt1) simp_all
  with "2.IH"(2) c1 have "remove_chain n (Node c1 k1 nxt1) = Inr (Node c1 k1 nxt1)" by simp
  with c1 show ?case by simp
qed

lemma remove_chain_once:
  assumes "remove_chain n nd = Inr nd'" "count_list (map number (tl (chain_list nd))) n \<le> 1"
  shows "hd (chain_list nd') = hd (chain_list nd) \<and> (\<forall>x \<in> set (tl (chain_list nd')). number x \<noteq> n)"
  using assms
proof (induction n nd arbitrary: nd' rule: remove_chain.induct)
  case (1 n c k)
  then show ?case by auto
next
  case (2 n c k c1 k1 nxt1)
  show ?case
  proof (cases "number c1 = n")
    case True
    with "2.prems"(1) obtain nd1 where nx: "nxt1 = Some nd1"
      by (cases nxt1) auto
    have cnt: "count_list (map number (chain_list nd1)) n = 0"
      using "2.prems"(2) True nx by simp
    then have nomatch: "\<forall>x \<in> set (chain_list nd1). number x \<noteq> n"
      by (auto simp: count_list_0_iff)
    then have "\<forall>x \<in> set (tl (chain_list nd1)). number x \<noteq> n"
      by (auto dest: list.set_sel(2) [rotated])
    then have "remove_chain n nd1 = Inr nd1" by (rule remove_chain_no_match)
    with "2.prems"(1) True nx have "nd' = Node c k (Some nd1)" by simp
    then show ?thesis using nomatch by simp
  next
    case False
    with "2.prems"(1) obtain nd1 where r: "remove_chain n (Node c1 k1 nxt1) = Inr nd1"
      and nd': "nd' = Node c k (Some nd1)"
      by (auto split: sum.splits)
    have "count_list (map number (tl (chain_list (Node c1 k1 nxt1)))) n \<le> 1"
      using "2.prems"(2) False by (cases nxt1) simp_all
    from "2.IH"(2) [OF False r this]
    have h: "hd (chain_list nd1) = hd (chain_list (Node c1 k1 nxt1))"
      and t: "\<forall>x \<in> set (tl (chain_list nd1)). number x \<noteq> n" by simp_all
    have "hd (chain_list (Node c1 k1 nxt1)) = c1" by (cases nxt1) simp_all
    with h have "chain_list nd1 = c1 # tl (chain_list nd1)"
      by (metis chain_list_not_Nil list.collapse)
    then have "\<forall>x \<in> set (chain_list nd1). number x \<noteq> n"
      using t False by (metis set_ConsD)
    then show ?thesis using nd' by simp
  qed
qed

lemma chain_list_append_node:
  "chain_list (append_node nd new_node) = chain_list nd @ chain_list new_node"
  by (induction nd new_node rule: append_node.induct) simp_all

lemma key_append_node: "key (append_node nd new_node) = key nd"
  by (cases nd rule: chain_list.cases) simp_all

lemma find_append_None:
  "List.find P xs = None \<Longrightarrow> List.find P (xs @ ys) = List.find P ys"
  by (induction xs) (simp_all split: if_splits)

lemma HashTable_insert_slot:
  assumes "hash sum0 (m_size t) (number c) = Inr k" "table_inv t"
  shows "\<exists>t'. HashTable_insert sum0 c t = Inr t' \<and> table_inv t' \<and> m_size t' = m_size t \<and>
           slot_records (m_nodes t' ! k) = slot_records (m_nodes t ! k) @ [c] \<and>
           (\<forall>j. j < m_size t \<and> j \<noteq> k \<longrightarrow> m_nodes t' ! j = m_nodes t ! j)"
proof -
  have k: "k < length (m_nodes t)" "k \<noteq> UINT_MAX"
    using hash_bound [OF assms(1)] assms(2) by (simp_all add: table_inv_def)
  show ?thesis
  proof (cases "key (m_nodes t ! k) = UINT_MAX")
    case True
    then show ?thesis
      using k assms by (simp add: HashTable_insert_def table_inv_def slot_records_def)
  next
    case False
    then show ?thesis
      using k assms
      by (simp add: HashTable_insert_def table_inv_def slot_records_def
          chain_list_append_node key_append_node)
  qed
qed

lemma insert_then_search_same_slot:
  assumes "hash sum0 (m_size t) (number c) = Inr k" "hash sum1 (m_size t) (number c) = Inr k"
    and "table_inv t"
    and "List.find (\<lambda>x. number x = number c) (slot_records (m_nodes t ! k)) = None"
  shows "\<exists>t'. HashTable_insert sum0 c t = Inr t' \<and> HashTable_search sum1 (number c) t' = Inr c"
proof -
  from HashTable_insert_slot [OF assms(1,3)] obtain t' where t':
    "HashTable_insert sum0 c t = Inr t'" "table_inv t'" "m_size t' = m_size t"
    "slot_records (m_nodes t' ! k) = slot_records (m_nodes t ! k) @ [c]" by blast
  have "hash sum1 (m_size t') (number c) = Inr k" using assms(2) t'(3) by simp
  from HashTable_search_find [OF this t'(2)]
  have "HashTable_search sum1 (number c) t' = Inr c"
    using t'(4) assms(4) by (simp add: find_append_None)
  with t'(1) show ?thesis by blast
qed

lemma remove_then_search_same_slot:
  assumes "hash sum0 (m_size t) n = Inr k" "hash sum1 (m_size t) n = Inr k" "table_inv t"
    and "count_list (map number (slot_records (m_nodes t ! k))) n \<le> 1"
    and "HashTable_remove sum0 n t = Inr t'"
  shows "HashTable_search sum1 n t' = Inr Course_default"
proof -
  let ?head = "m_nodes t ! k"
  have k: "k < length (m_nodes t)"
    using hash_bound [OF assms(1)] assms(3) by (simp add: table_inv_def)
  have slot: "List.find (\<lambda>c. number c = n) (slot_records (m_nodes t' ! k)) = None
      \<and> table_inv t' \<and> m_size t' = m_size t"
  proof (cases "key ?head \<noteq> UINT_MAX")
    case False
    then have "t' = t" using assms(1,5) k by (simp add: HashTable_remove_def Let_def)
    then show ?thesis using False assms(3) by (simp add: slot_records_def)
  next
    case occ: True
    obtain c kk nxt where head: "?head = Node c kk nxt" by (cases ?head) auto
    show ?thesis
    proof (cases "number c = n")
      case True
      have rest: "\<forall>x \<in> set (tl (chain_list ?head)). number x \<noteq> n"
      proof -
        have "count_list (map number (tl (chain_list ?head))) n = 0"
          using assms(4) occ head True by (cases nxt) (simp_all add: slot_records_def)
        then show ?thesis by (auto simp: count_list_0_iff)
      qed
      show ?thesis
      proof (cases nxt)
        case None
        then have "t' = t\<lparr>m_nodes := (m_nodes t)[k := Node_default]\<rparr>"
          using assms(1,5) k occ head True by (simp add: HashTable_remove_def)
        then show ?thesis
          using k assms(3) by (simp add: slot_records_def Node_default_def table_inv_def)
      next
        case (Some nd)
        then have "t' = t\<lparr>m_nodes := (m_nodes t)[k := nd]\<rparr>"
          using assms(1,5) k occ head True by (simp add: HashTable_remove_def)
        moreover have "\<forall>x \<in> set (chain_list nd). number x \<noteq> n"
          using rest head Some by simp
        ultimately show ?thesis
          using k assms(3) by (simp add: slot_records_def table_inv_def find_None_iff)
      qed
    next
      case False
      then obtain head' where r: "remove_chain n ?head = Inr head'"
        and t': "t' = t\<lparr>m_nodes := (m_nodes t)[k := head']\<rparr>"
        using assms(1,5) k occ head by (auto simp: HashTable_remove_def split: sum.splits)
      have "count_list (map number (tl (chain_list ?head))) n \<le> 1"
        using assms(4) occ head False by (cases nxt) (simp_all add: slot_records_def)
      from remove_chain_once [OF r this]
      have h: "hd (chain_list head') = hd (chain_list ?head)"
        and tl: "\<forall>x \<in> set (tl (chain_list head')). number x \<noteq> n" by simp_all
      have "hd (chain_list ?head) = c" using head by (cases nxt) simp_all
      with h have "chain_list head' = c # tl (chain_list head')"
        by (metis chain_list_not_Nil list.collapse)
      then have "\<forall>x \<in> set (chain_list head'). number x \<noteq> n"
        using tl False by (metis set_ConsD)
      then show ?thesis
        using t' k assms(3) by (simp add: slot_records_def table_inv_def find_None_iff)
    qed
  qed
  then have "hash sum1 (m_size t') n = Inr k" "table_inv t'" using assms(2) by simp_all
  from HashTable_search_find [OF this] slot show ?thesis by simp
qed

section \<open>The column loops stay within the row\<close>

text \<open>
  \<^verbatim>\<open>start\<close> never passes the end of the row, in the loops and after them, so no call
  of \<^verbatim>\<open>substr\<close> throws.
\<close>

lemma column_loop_start:
  "start \<le> length row \<Longrightarrow> fst (column_loop row start field_count c) \<le> length row"
proof (induction row start field_count c rule: column_loop.induct)
  case (1 row start field_count c)
  show ?case
  proof (cases "find_char row COL_DEL start")
    case None
    then show ?thesis using "1.prems" by (simp add: column_loop.simps [of row start] Let_def)
  next
    case (Some e)
    then have e: "e + 1 \<le> length row" using find_char_Some [OF Some] by simp
    show ?thesis
    proof (cases "e - start = 0")
      case True
      with "1.IH"(1) [OF Some refl True e] Some show ?thesis
        by (simp add: column_loop.simps [of row start] Let_def)
    next
      case False
      with "1.IH"(2) [OF Some refl False e] Some show ?thesis
        by (simp add: column_loop.simps [of row start] Let_def)
    qed
  qed
qed

lemma validate_columns_start:
  "start \<le> length row \<Longrightarrow>
   fst (validate_columns row start cur_field courses prereqs) \<le> length row"
proof (induction row start cur_field courses prereqs rule: validate_columns.induct)
  case (1 row start cur_field courses prereqs)
  show ?case
  proof (cases "find_char row COL_DEL start")
    case None
    then show ?thesis using "1.prems" by (simp add: validate_columns.simps [of row start] Let_def)
  next
    case (Some e)
    then have e: "e + 1 \<le> length row" using find_char_Some [OF Some] by simp
    show ?thesis
    proof (cases "e - start = 0")
      case True
      with "1.IH"(1) [OF Some refl True e] Some show ?thesis
        by (simp add: validate_columns.simps [of row start] Let_def)
    next
      case False
      note nz = this
      show ?thesis
      proof (cases cur_field)
        case 0
        with "1.IH"(2) [OF Some refl nz 0 e] Some nz show ?thesis
          by (simp add: validate_columns.simps [of row start] Let_def)
      next
        case (Suc m)
        show ?thesis
        proof (cases m)
          case 0
          with "1.IH"(3) [OF Some refl nz Suc 0 e] Some nz Suc show ?thesis
            by (simp add: validate_columns.simps [of row start] Let_def)
        next
          case (Suc m')
          with "1.IH"(4) [OF Some refl nz \<open>cur_field = Suc m\<close> Suc e] Some nz \<open>cur_field = Suc m\<close>
          show ?thesis
            by (simp add: validate_columns.simps [of row start] Let_def)
        qed
      qed
    qed
  qed
qed

section \<open>Rows that end with the title\<close>

text \<open>
  A row \<open>number,title\<close> with no delimiter after the title: the column loop counts one
  field, the title is the text after the last delimiter. \<^verbatim>\<open>ValidateFile\<close> rejects
  every file that starts with such a row, and \<^verbatim>\<open>loadFromCSV\<close> builds a record with an
  empty title whose only prerequisite is the title without its last byte.
\<close>

lemma takeWhile_until:
  "c \<notin> set xs \<Longrightarrow> takeWhile (\<lambda>x. x \<noteq> c) (xs @ c # ys) = xs"
  by (induction xs) auto

lemma takeWhile_absent:
  "c \<notin> set ys \<Longrightarrow> takeWhile (\<lambda>x. x \<noteq> c) ys = ys"
  by (induction ys) auto

lemma find_char_hit:
  "c \<notin> set xs \<Longrightarrow> find_char (xs @ c # ys) c 0 = Some (length xs)"
  by (simp add: find_char_def Let_def takeWhile_until)

lemma find_char_miss:
  "c \<notin> set ys \<Longrightarrow> find_char (xs @ c # ys) c (Suc (length xs)) = None"
  by (simp add: find_char_def Let_def takeWhile_absent)

lemma validate_columns_two_fields:
  assumes "COL_DEL \<notin> set n" "COL_DEL \<notin> set ti" "n \<noteq> []"
  shows "validate_columns (n @ COL_DEL # ti) 0 0 courses prereqs =
           (Suc (length n), 1, insert n courses, prereqs)"
proof -
  have 1: "find_char (n @ COL_DEL # ti) COL_DEL 0 = Some (length n)"
    using assms(1) by (rule find_char_hit)
  have 2: "find_char (n @ COL_DEL # ti) COL_DEL (Suc (length n)) = None"
    using assms(2) by (rule find_char_miss)
  have "validate_columns (n @ COL_DEL # ti) 0 0 courses prereqs =
          validate_columns (n @ COL_DEL # ti) (Suc (length n)) 1 (insert n courses) prereqs"
    using assms(3) by (subst validate_columns.simps) (simp add: 1 substr_def)
  also have "\<dots> = (Suc (length n), 1, insert n courses, prereqs)"
    by (subst validate_columns.simps) (simp add: 2)
  finally show ?thesis .
qed

lemma title_without_delimiter_rejected:
  assumes "COL_DEL \<notin> set n" "COL_DEL \<notin> set ti" "n \<noteq> []"
  shows "validate_rows ((n @ COL_DEL # ti) # rows) courses prereqs row_count = - 1"
  by (simp add: validate_columns_two_fields [OF assms] Let_def)

lemma column_loop_two_fields:
  assumes "COL_DEL \<notin> set n" "COL_DEL \<notin> set ti" "n \<noteq> []"
  shows "column_loop (n @ COL_DEL # ti) 0 0 Course_default =
           (Suc (length n), 1, Course_default\<lparr>number := n\<rparr>)"
proof -
  have 1: "find_char (n @ COL_DEL # ti) COL_DEL 0 = Some (length n)"
    using assms(1) by (rule find_char_hit)
  have 2: "find_char (n @ COL_DEL # ti) COL_DEL (Suc (length n)) = None"
    using assms(2) by (rule find_char_miss)
  have "column_loop (n @ COL_DEL # ti) 0 0 Course_default =
          column_loop (n @ COL_DEL # ti) (Suc (length n)) 1 (Course_default\<lparr>number := n\<rparr>)"
    using assms(3) by (subst column_loop.simps) (simp add: 1 substr_def)
  also have "\<dots> = (Suc (length n), 1, Course_default\<lparr>number := n\<rparr>)"
    by (subst column_loop.simps) (simp add: 2)
  finally show ?thesis .
qed

lemma title_without_delimiter_parsed:
  assumes "COL_DEL \<notin> set n" "COL_DEL \<notin> set ti" "n \<noteq> []" "1 < length ti"
    and "length n + length ti + 1 < 2 ^ 64"
  shows "parse_row (n @ COL_DEL # ti) =
           \<lparr>number = n, title = [], prerequisites = [c_str (butlast ti)]\<rparr>"
proof -
  let ?row = "n @ COL_DEL # ti"
  have len: "length ?row = length n + length ti + 1" by simp
  have a: "size_t_sub (length ?row) 1 = length n + length ti"
    using size_t_sub_le [of 1 "length ?row"] assms(5) by simp
  have b: "size_t_sub (length ?row) (Suc (length n)) = length ti"
    using size_t_sub_le [of "Suc (length n)" "length ?row"] assms(5) by simp
  have c: "size_t_sub (length ti) 1 = length ti - 1"
    using size_t_sub_le [of 1 "length ti"] assms(4,5) by simp
  have "substr ?row (Suc (length n)) (length ti - 1) = butlast ti"
    by (simp add: substr_def butlast_conv_take)
  then show ?thesis
    unfolding parse_row_def column_loop_two_fields [OF assms(1-3)]
    using assms(4) a b c by (simp add: Course_default_def del: length_append append.simps)
qed

lemma getline_rows_first:
  assumes "ROW_DEL \<notin> set row"
  shows "getline_rows (row @ ROW_DEL # rest) = row # getline_rows rest"
proof -
  have "takeWhile (\<lambda>c. c \<noteq> ROW_DEL) (row @ ROW_DEL # rest) = row"
    using assms by (rule takeWhile_until)
  then show ?thesis
    by (subst getline_rows.simps) (simp add: Let_def)
qed

lemma number_title_file_rejected:
  assumes "COL_DEL \<notin> set n" "COL_DEL \<notin> set ti" "n \<noteq> []"
    and "ROW_DEL \<notin> set n" "ROW_DEL \<notin> set ti"
  shows "ValidateFile (Some (n @ COL_DEL # ti @ ROW_DEL # rest)) = - 1"
proof -
  have "COL_DEL \<noteq> ROW_DEL" by (simp add: COL_DEL_def ROW_DEL_def)
  then have "ROW_DEL \<notin> set (n @ COL_DEL # ti)" using assms(4,5) by auto
  from getline_rows_first [OF this, of rest]
  have "file_rows (Some (n @ COL_DEL # ti @ ROW_DEL # rest)) = (n @ COL_DEL # ti) # getline_rows rest"
    by (simp add: file_rows_def)
  then show ?thesis
    by (simp only: ValidateFile_def title_without_delimiter_rejected [OF assms(1-3)])
qed

section \<open>Evaluating the examples\<close>

lemmas parse_defs = find_char_def COL_DEL_def ROW_DEL_def substr_def Course_default_def
  size_t_sub_def c_str_def parse_row_def file_rows_def ValidateFile_def Let_def
  getline_rows.simps column_loop.simps validate_columns.simps

lemmas hash_defs = hash_def hash_term_def char_to_int_def INT_MAX_def INT_MIN_def hash_loop.simps

lemma HashTable_new_1: "HashTable_new (Suc 0) = \<lparr>m_nodes = [Node_default], m_size = Suc 0\<rparr>"
  by (simp add: HashTable_new_def)

lemma HashTable_new_2: "HashTable_new 2 = \<lparr>m_nodes = [Node_default, Node_default], m_size = 2\<rparr>"
  by (simp add: HashTable_new_def numeral_2_eq_2)

lemma hash_one_slot:
  "hash s (Suc 0) ''A'' = Inr 0" "hash s (Suc 0) ''B'' = Inr 0" "hash s (Suc 0) ''X'' = Inr 0"
  "hash s (Suc 0) ''Y'' = Inr 0" "hash s (Suc 0) [] = Inr 0"
  "hash s (Suc 0) ''CS100'' = Inr 0" "hash s (Suc 0) ''CS999'' = Inr 0"
  by (simp_all add: hash_defs)

lemma hash_two_slots:
  "hash 0 2 ''A'' = Inr 1" "hash 1 2 ''A'' = Inr 0"
  "hash 0 2 ''CS101'' = Inr 0" "hash 0 2 ''CS100'' = Inr 1"
  by (simp_all add: hash_defs)

lemma example_file_rows:
  "file_rows (Some example_file) = [''CS101,Intro,CS100'', ''CS100,Basics'']"
  by (simp add: example_file_def parse_defs)

lemma example_file_parse:
  "parse_row ''CS101,Intro,CS100'' = \<lparr>number = ''CS101'', title = ''Intro'', prerequisites = [''CS10'']\<rparr>"
  "parse_row ''CS100,Basics'' = \<lparr>number = ''CS100'', title = [], prerequisites = [''Basic'']\<rparr>"
  by (simp_all add: parse_defs)

lemma example_file_load: "loadFromCSV (\<lambda>i. 0) (Some example_file) (HashTable_new 2) = Inr example_loaded"
  by (simp add: loadFromCSV_def example_file_rows example_file_parse HashTable_insert_def
      HashTable_new_2 hash_two_slots Node_default_def example_loaded_def)

lemma dup_file_rows:
  "file_rows (Some dup_file) = [''A,a,'', ''B,b,'', ''X,x,'', ''B,b,'', ''Y,y,'']"
  by (simp add: dup_file_def parse_defs)

lemma dup_file_parse:
  "parse_row ''A,a,'' = course_of ''A'' ''a''" "parse_row ''B,b,'' = course_of ''B'' ''b''"
  "parse_row ''X,x,'' = course_of ''X'' ''x''" "parse_row ''Y,y,'' = course_of ''Y'' ''y''"
  by (simp_all add: parse_defs course_of_def)

lemma dup_file_load: "loadFromCSV junk (Some dup_file) (HashTable_new 1) = Inr dup_table"
  by (simp add: loadFromCSV_def dup_file_rows dup_file_parse HashTable_insert_def
      HashTable_new_1 hash_one_slot Node_default_def UINT_MAX_def dup_table_def course_of_def)

text \<open>
  Further inputs on which \<^verbatim>\<open>hash\<close> has no defined result: a table of size zero, and
  a seven-byte course number of the default input file in the default table size.
\<close>

lemma hash_size_zero: "hash 0 0 ''A'' = Inl DivByZero"
  by (simp add: hash_defs)

lemma hash_seven_bytes: "hash 0 179 ''CSCI100'' = Inl IntOverflow"
  by (simp add: hash_defs)

section \<open>The claims\<close>

text \<open>
  Claim C1: for the file \<open>CS101,Intro,CS100\<close>, \<open>CS100,Basics\<close> (each row ended by a
  newline), \<^verbatim>\<open>ValidateFile\<close> returns 2, a load inserts both records, the sorted list is
  \<open>[CS100, CS101]\<close>, \<^verbatim>\<open>search\<close> for \<open>CS100\<close> returns the title \<open>Basics\<close>, and
  \<^verbatim>\<open>search\<close> for \<open>CS999\<close> returns the not-found signal.

  The code returns \<open>-1\<close> from \<^verbatim>\<open>ValidateFile\<close>: in the second row the title is the text
  after the last delimiter, which is not counted as a field. A load into a table of two
  slots stores the first record with the prerequisite \<open>CS10\<close> and the second with an empty
  title and the prerequisite \<open>Basic\<close>; \<^verbatim>\<open>search\<close> for \<open>CS100\<close> returns that record, and
  the menu prints that the course could not be found.
\<close>

theorem example_file_diverges:
  "ValidateFile (Some example_file) = - 1 \<and>
   loadFromCSV (\<lambda>i. 0) (Some example_file) (HashTable_new 2) = Inr example_loaded \<and>
   HashTable_search 0 ''CS100'' example_loaded =
     Inr \<lparr>number = ''CS100'', title = [], prerequisites = [''Basic'']\<rparr> \<and>
   main_case_3 0 example_loaded ''CS100'' = Inr (CouldNotFind ''CS100'')"
proof (intro conjI)
  show "ValidateFile (Some example_file) = - 1"
    by (simp add: example_file_def parse_defs)
  show "loadFromCSV (\<lambda>i. 0) (Some example_file) (HashTable_new 2) = Inr example_loaded"
    by (rule example_file_load)
  show s: "HashTable_search 0 ''CS100'' example_loaded =
     Inr \<lparr>number = ''CS100'', title = [], prerequisites = [''Basic'']\<rparr>"
    by (simp add: HashTable_search_def example_loaded_def hash_two_slots UINT_MAX_def)
  show "main_case_3 0 example_loaded ''CS100'' = Inr (CouldNotFind ''CS100'')"
    by (simp add: main_case_3_def s string_compare_def)
qed

text \<open>
  Claim C2: a final field that no delimiter follows is captured in full at its
  positional role (field 0 the number, field 1 the title, later fields prerequisites).

  The code appends the text after the last delimiter to the prerequisites whatever its
  position, without its last byte, and drops it when it is a single byte: the row
  \<open>CS100,Basics\<close> yields an empty title and the prerequisite \<open>Basic\<close>, the row \<open>A,B,C\<close>
  yields no prerequisite. (For every row \<open>number,title\<close>: lemma
  \<open>title_without_delimiter_parsed\<close>.)
\<close>

theorem final_field_not_captured:
  "parse_row ''CS100,Basics'' = \<lparr>number = ''CS100'', title = [], prerequisites = [''Basic'']\<rparr> \<and>
   parse_row ''A,B,C'' = \<lparr>number = ''A'', title = ''B'', prerequisites = []\<rparr>"
  by (simp add: parse_defs)

text \<open>
  Claim C3: for every well-formed file (every row has at least two non-empty fields, and
  every prerequisite is the number of some row) \<^verbatim>\<open>ValidateFile\<close> returns the number of
  rows.

  The code returns \<open>-1\<close> for the one-row file \<open>MATH201,Discrete Mathematics\<close>, whose title
  is not counted, and for the two-row file \<open>CS100,Basics,\<close> \<open>CS101,Intro,CS100\<close>, whose
  prerequisite is collected as \<open>CS10\<close>. (Every file that starts with a row
  \<open>number,title\<close> is rejected: lemma \<open>number_title_file_rejected\<close>.)
\<close>

theorem well_formed_file_rejected:
  "ValidateFile (Some (''MATH201,Discrete Mathematics'' @ [CHR 0x0A])) = - 1 \<and>
   ValidateFile (Some (''CS100,Basics,'' @ [CHR 0x0A] @ ''CS101,Intro,CS100'' @ [CHR 0x0A])) = - 1"
  by (simp add: parse_defs)

text \<open>
  Claim C4: after \<^verbatim>\<open>insert\<close> of a record with a new number, \<^verbatim>\<open>search\<close> for that
  number returns the record.

  \<^verbatim>\<open>hash\<close> starts from the indeterminate value of its uninitialised accumulator. In a
  table of two slots, with that value 0 in the call made by \<^verbatim>\<open>insert\<close> and 1 in the call
  made by \<^verbatim>\<open>search\<close>, the record \<open>A\<close> is stored in slot 1 and looked up in slot 0, and
  \<^verbatim>\<open>search\<close> returns the empty record. (When both calls select the same slot the
  record is returned: lemma \<open>insert_then_search_same_slot\<close>.)
\<close>

theorem insert_then_search_other_slot:
  "HashTable_insert 0 (course_of ''A'' ''a'') (HashTable_new 2) =
     Inr \<lparr>m_nodes = [Node_default, Node (course_of ''A'' ''a'') 1 None], m_size = 2\<rparr> \<and>
   HashTable_search 1 ''A'' \<lparr>m_nodes = [Node_default, Node (course_of ''A'' ''a'') 1 None], m_size = 2\<rparr> =
     Inr Course_default"
  by (simp add: HashTable_insert_def HashTable_search_def HashTable_new_2 hash_two_slots
      Node_default_def course_of_def)

text \<open>
  Claim C5: for a table built by inserts and a record in it whose number was inserted
  once, \<^verbatim>\<open>search\<close> after \<^verbatim>\<open>remove\<close> of that number returns the not-found signal.

  With \<open>A\<close> and then \<open>B\<close> inserted into a table of one slot, \<^verbatim>\<open>remove\<close> of \<open>B\<close> unlinks
  the last chain node and then reads \<^verbatim>\<open>cur_node->next\<close> through a null \<^verbatim>\<open>cur_node\<close>:
  it does not complete, whatever the start values of \<^verbatim>\<open>hash\<close>. (When \<^verbatim>\<open>remove\<close>
  completes and both calls select the same slot, \<^verbatim>\<open>search\<close> returns the empty record:
  lemma \<open>remove_then_search_same_slot\<close>.)
\<close>

theorem remove_inserted_record_fails:
  "HashTable_insert s1 (course_of ''A'' ''a'') (HashTable_new 1) =
     Inr \<lparr>m_nodes = [Node (course_of ''A'' ''a'') 0 None], m_size = 1\<rparr> \<and>
   HashTable_insert s2 (course_of ''B'' ''b'') \<lparr>m_nodes = [Node (course_of ''A'' ''a'') 0 None], m_size = 1\<rparr> =
     Inr two_table \<and>
   HashTable_remove s3 ''B'' two_table = Inl NullDeref"
  by (simp add: HashTable_insert_def HashTable_remove_def HashTable_new_1 hash_one_slot
      Node_default_def UINT_MAX_def two_table_def course_of_def)

text \<open>
  Claim C6: for every table, \<^verbatim>\<open>toVector\<close> followed by \<^verbatim>\<open>Quicksort\<close> over the indices
  \<open>0..length-1\<close> (menu choice 2) yields a sequence whose numbers are non-decreasing in the
  lexicographic order of strings and whose multiset of numbers is that of the records
  stored in the table (the records themselves are permuted). The indices are
  \<^verbatim>\<open>int\<close>, so the table holds fewer than \<open>2^31\<close> records.
\<close>

theorem export_then_sort:
  assumes "length (HashTable_toVector t) < 2 ^ 31"
  shows "\<exists>courses. main_case_2 t = Inr courses \<and>
           sorted (map number courses) \<and>
           mset (map number courses) = mset (map number (stored_records t)) \<and>
           mset courses = mset (stored_records t)"
proof -
  from main_case_2_sorts [OF assms] obtain courses where
    "main_case_2 t = Inr courses" "sorted (map number courses)"
    "mset courses = mset (HashTable_toVector t)" by blast
  moreover from this(3) have "mset (map number courses) = mset (map number (stored_records t))"
    by (simp add: toVector_stored)
  moreover from \<open>mset courses = mset (HashTable_toVector t)\<close>
  have "mset courses = mset (stored_records t)"
    by (simp add: toVector_stored)
  ultimately show ?thesis by blast
qed

theorem export_then_sort_witness:
  "length (HashTable_toVector unsorted_table) < 2 ^ 31 \<and>
   (\<exists>courses. main_case_2 unsorted_table = Inr courses \<and>
      sorted (map number courses) \<and>
      mset (map number courses) = mset (map number (stored_records unsorted_table)) \<and>
      mset courses = mset (stored_records unsorted_table))"
proof -
  have h: "length (HashTable_toVector unsorted_table) < 2 ^ 31"
    by (simp add: HashTable_toVector_def unsorted_table_def UINT_MAX_def)
  show ?thesis using h export_then_sort [OF h] by blast
qed

text \<open>
  Claim C7: when a slot holds two or more records with the same number, \<^verbatim>\<open>remove\<close>
  deletes the first of them only, and every later duplicate remains.

  After a chain node is unlinked the loop of \<^verbatim>\<open>remove\<close> goes on (the head case returns).
  With the rows \<open>A\<close>, \<open>B\<close>, \<open>X\<close>, \<open>B\<close>, \<open>Y\<close> loaded into a table of one slot, \<^verbatim>\<open>remove\<close>
  of \<open>B\<close> deletes both records numbered \<open>B\<close>.
\<close>

theorem remove_deletes_two_duplicates:
  "loadFromCSV junk (Some dup_file) (HashTable_new 1) = Inr dup_table \<and>
   map number (HashTable_toVector dup_table) = [''A'', ''B'', ''X'', ''B'', ''Y''] \<and>
   HashTable_remove s ''B'' dup_table = Inr dup_table_removed \<and>
   map number (HashTable_toVector dup_table_removed) = [''A'', ''X'', ''Y'']"
proof (intro conjI)
  show "loadFromCSV junk (Some dup_file) (HashTable_new 1) = Inr dup_table"
    by (rule dup_file_load)
  show "map number (HashTable_toVector dup_table) = [''A'', ''B'', ''X'', ''B'', ''Y'']"
    by (simp add: HashTable_toVector_def dup_table_def UINT_MAX_def course_of_def)
  show "HashTable_remove s ''B'' dup_table = Inr dup_table_removed"
    by (simp add: HashTable_remove_def dup_table_def dup_table_removed_def hash_one_slot
        UINT_MAX_def course_of_def)
  show "map number (HashTable_toVector dup_table_removed) = [''A'', ''X'', ''Y'']"
    by (simp add: HashTable_toVector_def dup_table_removed_def UINT_MAX_def course_of_def)
qed

text \<open>
  Claim C8: \<^verbatim>\<open>hash\<close> is deterministic: for a course number and a table size, two
  evaluations yield the same slot index, and the index is below the table size.

  The accumulator \<^verbatim>\<open>sum\<close> is read before anything is assigned to it. For the number
  \<open>A\<close> and the table size 2 the result is slot 1 when the variable starts at 0 and slot
  0 when it starts at 1. (A result, when there is one, is below the table size: lemma
  \<open>hash_bound\<close>.)
\<close>

theorem hash_depends_on_start_value:
  "hash 0 2 ''A'' = Inr 1 \<and> hash 1 2 ''A'' = Inr 0"
  by (simp add: hash_defs)

text \<open>
  Claim C9: \<^verbatim>\<open>search\<close> signals an absent key by an explicit not-found result that is
  never conflated with a stored record whose title is empty: for every table containing
  a record with an empty title, \<^verbatim>\<open>search\<close> on its number is distinguishable from
  \<^verbatim>\<open>search\<close> on an absent number.

  The not-found result of the code is the record with three empty fields. A table that
  holds that record returns it for its number (the empty string), as it does for an
  absent number.
\<close>

theorem not_found_is_empty_record:
  "HashTable_insert 0 Course_default (HashTable_new 1) = Inr empty_record_table \<and>
   title Course_default = [] \<and>
   HashTable_search 0 [] empty_record_table = Inr Course_default \<and>
   HashTable_search 0 ''CS999'' empty_record_table = Inr Course_default"
  by (simp add: HashTable_insert_def HashTable_search_def HashTable_new_1 hash_one_slot
      Node_default_def UINT_MAX_def empty_record_table_def Course_default_def)

text \<open>
  Claim C9 as the code has it: \<^verbatim>\<open>search\<close> returns the record with three empty fields
  for an absent number. For a table that holds, first in the slot that \<^verbatim>\<open>hash\<close>
  selects, a record with an empty title and a non-empty number, \<^verbatim>\<open>search\<close> on that
  number returns that record, which differs from the result for an absent number in its
  number; the menu, which looks at the title only, prints that the course could not be
  found in both cases.
\<close>

theorem search_empty_title:
  assumes "table_inv t"
    and "hash sum0 (m_size t) n = Inr k"
    and "List.find (\<lambda>c. number c = n) (slot_records (m_nodes t ! k)) = Some c"
    and "title c = []" "n \<noteq> []"
    and "hash sum1 (m_size t) n' = Inr k'"
    and "List.find (\<lambda>c. number c = n') (slot_records (m_nodes t ! k')) = None"
  shows "HashTable_search sum0 n t = Inr c \<and> number c = n \<and>
         HashTable_search sum1 n' t = Inr Course_default \<and> c \<noteq> Course_default \<and>
         main_case_3 sum0 t n = Inr (CouldNotFind n) \<and>
         main_case_3 sum1 t n' = Inr (CouldNotFind n')"
proof -
  have s: "HashTable_search sum0 n t = Inr c"
    using HashTable_search_find [OF assms(2,1)] assms(3) by simp
  have s': "HashTable_search sum1 n' t = Inr Course_default"
    using HashTable_search_find [OF assms(6,1)] assms(7) by simp
  have num: "number c = n"
    using assms(3) by (auto simp: find_Some_iff)
  then have "c \<noteq> Course_default"
    using assms(5) by (auto simp: Course_default_def)
  moreover have "main_case_3 sum0 t n = Inr (CouldNotFind n)"
    using s assms(4) by (simp add: main_case_3_def string_compare_def)
  moreover have "main_case_3 sum1 t n' = Inr (CouldNotFind n')"
    using s' by (simp add: main_case_3_def string_compare_def Course_default_def)
  ultimately show ?thesis using s s' num by blast
qed

theorem search_empty_title_witness:
  "HashTable_search 0 ''CS100'' untitled_table =
     Inr \<lparr>number = ''CS100'', title = [], prerequisites = [''Basic'']\<rparr> \<and>
   HashTable_search 0 ''CS999'' untitled_table = Inr Course_default \<and>
   main_case_3 0 untitled_table ''CS100'' = Inr (CouldNotFind ''CS100'') \<and>
   main_case_3 0 untitled_table ''CS999'' = Inr (CouldNotFind ''CS999'')"
proof -
  let ?c = "\<lparr>number = ''CS100'', title = [], prerequisites = [''Basic'']\<rparr>"
  have 1: "table_inv untitled_table"
    by (simp add: table_inv_def untitled_table_def UINT_MAX_def)
  have 2: "hash 0 (m_size untitled_table) ''CS100'' = Inr 0"
    by (simp add: untitled_table_def hash_one_slot)
  have 3: "List.find (\<lambda>c. number c = ''CS100'') (slot_records (m_nodes untitled_table ! 0)) = Some ?c"
    by (simp add: untitled_table_def slot_records_def UINT_MAX_def)
  have 4: "title ?c = []" and 5: "''CS100'' \<noteq> []" by simp_all
  have 6: "hash 0 (m_size untitled_table) ''CS999'' = Inr 0"
    by (simp add: untitled_table_def hash_one_slot)
  have 7: "List.find (\<lambda>c. number c = ''CS999'') (slot_records (m_nodes untitled_table ! 0)) = None"
    by (simp add: untitled_table_def slot_records_def UINT_MAX_def)
  from search_empty_title [OF 1 2 3 4 5 6 7] show ?thesis by simp
qed

text \<open>
  Claim C10: for every table built by inserts and every course number, \<^verbatim>\<open>remove\<close> runs
  to completion without dereferencing a null chain pointer in its chain loop.

  Whenever the number is that of the last record of a slot with two or more records, and
  of no other record of the slot, the loop unlinks the last node, sets \<^verbatim>\<open>cur_node\<close> to
  the null \<^verbatim>\<open>next\<close> of its predecessor and evaluates \<^verbatim>\<open>cur_node->next\<close>.
\<close>

theorem remove_last_chain_node:
  assumes "hash sum0 (m_size t) n = Inr k" "table_inv t"
    and "slot_records (m_nodes t ! k) = c0 # cs @ [c]"
    and "number c0 \<noteq> n" "number c = n" "\<forall>x \<in> set cs. number x \<noteq> n"
  shows "HashTable_remove sum0 n t = Inl NullDeref"
proof -
  have k: "\<not> length (m_nodes t) \<le> k"
    using hash_bound [OF assms(1)] assms(2) by (simp add: table_inv_def)
  have occ: "key (m_nodes t ! k) \<noteq> UINT_MAX" and cl: "chain_list (m_nodes t ! k) = c0 # cs @ [c]"
    using assms(3) by (auto simp: slot_records_def split: if_splits)
  have "course (m_nodes t ! k) = c0"
    using cl by (subst (asm) chain_list_head) simp
  moreover have "remove_chain n (m_nodes t ! k) = Inl NullDeref"
    using cl assms(5,6) by (rule remove_chain_last_match)
  ultimately show ?thesis
    using k occ assms(1,4) by (simp add: HashTable_remove_def Let_def)
qed

theorem remove_last_chain_node_witness:
  "table_inv two_table \<and> HashTable_remove 0 ''B'' two_table = Inl NullDeref"
proof -
  have 1: "hash 0 (m_size two_table) ''B'' = Inr 0"
    by (simp add: two_table_def hash_one_slot)
  have 2: "table_inv two_table"
    by (simp add: table_inv_def two_table_def UINT_MAX_def)
  have 3: "slot_records (m_nodes two_table ! 0) = course_of ''A'' ''a'' # [] @ [course_of ''B'' ''b'']"
    by (simp add: two_table_def slot_records_def UINT_MAX_def)
  have 4: "number (course_of ''A'' ''a'') \<noteq> ''B''" and 5: "number (course_of ''B'' ''b'') = ''B''"
    by (simp_all add: course_of_def)
  have 6: "\<forall>x \<in> set []. number x \<noteq> ''B''" by simp
  from remove_last_chain_node [OF 1 2 3 4 5 6] 2 show ?thesis by simp
qed

end
